theory Spec2Isabelle
  imports Main
begin

section \<open>Service descriptions and the service collection\<close>

text \<open>
  The three life-times of \<^verbatim>\<open>ServiceCollection::ServiceType\<close>.
\<close>

datatype ServiceType = Singleton | Scoped | Transient

text \<open>
  A \<^verbatim>\<open>std::type_index\<close> is either \<^verbatim>\<open>typeid(TService)\<close> (the key of
  singleton and scoped registrations) or \<^verbatim>\<open>typeid(std::shared_ptr<TService>)\<close>
  (the key of transient registrations). A class is identified by its name, which is
  also what \<^verbatim>\<open>typeid(TService).name()\<close> yields.
\<close>

type_synonym class_name = string

datatype type_index = TypeId class_name | SharedPtrTypeId class_name

text \<open>
  An object on the C++ heap. An object that a factory of the provider constructs has an
  address, counted from \<^verbatim>\<open>build()\<close>, its dynamic type and the constructor
  arguments that were injected. An object that existed before \<^verbatim>\<open>build()\<close> and
  is captured by a registered closure has its dynamic type and a number that tells it
  from the other captured objects. A \<^verbatim>\<open>std::any\<close> is empty, holds a
  \<^verbatim>\<open>std::shared_ptr\<close> or holds a \<^verbatim>\<open>std::reference_wrapper\<close>.
\<close>

datatype object =
    Object (address: nat) (dynamic_type: class_name) (ctor_args: "ctor_arg list")
  | Existing (dynamic_type: class_name) (captured: nat)
  and ctor_arg =
      RefArg object
    | PtrArg object
    | RefVectorArg "object list"
    | PtrVectorArg "object list"

datatype any = NoValue | SharedPtr object | ReferenceWrapper object

datatype error =
    BadAnyCast
  | OutOfRange
  | LogicError string
  | UndefinedBehaviour
  | Deadlock
  | OutOfFuel

text \<open>
  The four overloads of \<^verbatim>\<open>ServiceFactory::getService<T>\<close> select what a
  constructor parameter asks of the provider: \<^verbatim>\<open>T&\<close>,
  \<^verbatim>\<open>std::shared_ptr<T>\<close>, \<^verbatim>\<open>std::vector<std::reference_wrapper<T>>\<close>
  or \<^verbatim>\<open>std::vector<std::shared_ptr<T>>\<close>.
\<close>

datatype ctor_param =
    ByReference class_name
  | BySharedPtr class_name
  | ReferenceVector class_name
  | SharedPtrVector class_name

text \<open>
  A factory closure \<^verbatim>\<open>std::function<std::any(IServiceProvider&)>\<close> is one of
  two. The first is \<^verbatim>\<open>ServiceFactory<TImplementation>::create\<close>: it resolves
  the constructor parameters of the implementation in order against the provider it is
  handed and then constructs the object; a user supplied factory that requests services
  from the provider and makes a new object from them is read the same way. The second
  returns a shared pointer that the closure has captured, the same at every call: the
  closure \<^verbatim>\<open>[service](IServiceProvider&) { return service; }\<close> that
  \<^verbatim>\<open>addSingleton(existingService)\<close> installs, and every user supplied factory
  that hands out an object it holds. Closures that keep state between calls, return a
  null pointer or catch the exceptions of the provider are not covered.
  The two conversion closures are the ones \<^verbatim>\<open>addService\<close> (a
  \<^verbatim>\<open>std::ref\<close> to the managed object) and \<^verbatim>\<open>addTransient\<close> (a
  \<^verbatim>\<open>std::static_pointer_cast\<close>) install.
\<close>

datatype FactoryFunction =
    ServiceFactory (implementation: class_name) (parameters: "ctor_param list")
  | ExistingService (implementation: class_name) (existing: nat)
  where "parameters (ExistingService T n) = []"

datatype ConversionFunction = ToReference | ToSharedPtr

record ServiceDescription =
  create :: FactoryFunction
  convert :: ConversionFunction
  type :: ServiceType

type_synonym FactoryFunctionCollection = "ServiceDescription list"

type_synonym factories = "type_index \<rightharpoonup> FactoryFunctionCollection"

fun apply_convert :: "ConversionFunction \<Rightarrow> any \<Rightarrow> error + any" where
  "apply_convert ToReference (SharedPtr p) = Inr (ReferenceWrapper p)"
| "apply_convert ToReference _ = Inl BadAnyCast"
| "apply_convert ToSharedPtr (SharedPtr p) = Inr (SharedPtr p)"
| "apply_convert ToSharedPtr _ = Inl BadAnyCast"

text \<open>
  \<^verbatim>\<open>_factories.emplace(typeIndex, FactoryFunctionCollection{}).first->second.emplace_back(...)\<close>:
  the key's list is created when it is missing and the description is appended.
\<close>

definition emplace_back_description ::
  "type_index \<Rightarrow> ServiceDescription \<Rightarrow> factories \<Rightarrow> factories" where
  "emplace_back_description typeIndex d fs =
     fs(typeIndex \<mapsto> (case fs typeIndex of None \<Rightarrow> [] | Some ds \<Rightarrow> ds) @ [d])"

definition addService ::
  "class_name \<Rightarrow> class_name \<Rightarrow> ctor_param list \<Rightarrow> ServiceType \<Rightarrow> factories \<Rightarrow> factories" where
  "addService TService TImplementation ps serviceType fs =
     emplace_back_description (TypeId TService)
       \<lparr>create = ServiceFactory TImplementation ps, convert = ToReference, type = serviceType\<rparr> fs"

definition addSingleton :: "class_name \<Rightarrow> class_name \<Rightarrow> ctor_param list \<Rightarrow> factories \<Rightarrow> factories" where
  "addSingleton TService TImplementation ps = addService TService TImplementation ps Singleton"

definition addScoped :: "class_name \<Rightarrow> class_name \<Rightarrow> ctor_param list \<Rightarrow> factories \<Rightarrow> factories" where
  "addScoped TService TImplementation ps = addService TService TImplementation ps Scoped"

definition addTransient :: "class_name \<Rightarrow> class_name \<Rightarrow> ctor_param list \<Rightarrow> factories \<Rightarrow> factories" where
  "addTransient TService TImplementation ps fs =
     emplace_back_description (SharedPtrTypeId TService)
       \<lparr>create = ServiceFactory TImplementation ps, convert = ToSharedPtr, type = Transient\<rparr> fs"

text \<open>
  The overloads that take a factory: \<^verbatim>\<open>addService<TService, serviceType>(F&&)\<close>
  with \<^verbatim>\<open>addSingleton(F&&)\<close> and \<^verbatim>\<open>addScoped(F&&)\<close>,
  \<^verbatim>\<open>addSingleton(std::shared_ptr<TImplementation> existingService)\<close>, and
  \<^verbatim>\<open>addTransient(F&&)\<close>.
\<close>

definition addService_F :: "class_name \<Rightarrow> ServiceType \<Rightarrow> FactoryFunction \<Rightarrow> factories \<Rightarrow> factories" where
  "addService_F TService serviceType factory fs =
     emplace_back_description (TypeId TService)
       \<lparr>create = factory, convert = ToReference, type = serviceType\<rparr> fs"

definition addSingleton_F :: "class_name \<Rightarrow> FactoryFunction \<Rightarrow> factories \<Rightarrow> factories" where
  "addSingleton_F TService factory = addService_F TService Singleton factory"

definition addScoped_F :: "class_name \<Rightarrow> FactoryFunction \<Rightarrow> factories \<Rightarrow> factories" where
  "addScoped_F TService factory = addService_F TService Scoped factory"

definition addSingleton_existing :: "class_name \<Rightarrow> class_name \<Rightarrow> nat \<Rightarrow> factories \<Rightarrow> factories" where
  "addSingleton_existing TService TImplementation existingService =
     addService_F TService Singleton (ExistingService TImplementation existingService)"

definition addTransient_F :: "class_name \<Rightarrow> FactoryFunction \<Rightarrow> factories \<Rightarrow> factories" where
  "addTransient_F TService factory fs =
     emplace_back_description (SharedPtrTypeId TService)
       \<lparr>create = factory, convert = ToSharedPtr, type = Transient\<rparr> fs"

text \<open>A registration call on the collection, and a whole sequence of them.\<close>

datatype registration =
    AddSingleton class_name class_name "ctor_param list"
  | AddScoped class_name class_name "ctor_param list"
  | AddTransient class_name class_name "ctor_param list"
  | AddSingletonFactory class_name FactoryFunction
  | AddScopedFactory class_name FactoryFunction
  | AddSingletonExisting class_name class_name nat
  | AddTransientFactory class_name FactoryFunction

fun register :: "factories \<Rightarrow> registration \<Rightarrow> factories" where
  "register fs (AddSingleton s i ps) = addSingleton s i ps fs"
| "register fs (AddScoped s i ps) = addScoped s i ps fs"
| "register fs (AddTransient s i ps) = addTransient s i ps fs"
| "register fs (AddSingletonFactory s f) = addSingleton_F s f fs"
| "register fs (AddScopedFactory s f) = addScoped_F s f fs"
| "register fs (AddSingletonExisting s i n) = addSingleton_existing s i n fs"
| "register fs (AddTransientFactory s f) = addTransient_F s f fs"

definition collect :: "registration list \<Rightarrow> factories" where
  "collect rs = foldl register Map.empty rs"

section \<open>The provider and its scopes\<close>

text \<open>
  \<^verbatim>\<open>ConcurrentService\<close>: the claim flag and the promise. The future is
  \<open>None\<close> until \<^verbatim>\<open>set_value\<close> ran.
\<close>

record ConcurrentService =
  initialized :: bool
  serviceFuture :: "any option"

text \<open>
  The members that \<^verbatim>\<open>ServiceProvider\<close> and \<^verbatim>\<open>ScopedServiceProvider\<close>
  share: the instance table and the initialization order.
\<close>

record provider_members =
  initializationOrder :: "any list"
  instances :: "type_index \<rightharpoonup> ConcurrentService list"

datatype provider_ref = Root | Scope nat

text \<open>
  One call of a factory closure: the provider whose table the instance belongs to, the
  key, the index of the description, the provider handed to the closure and the life-time
  of the description. The list of these calls is a history kept beside the program state;
  no operation reads it.
\<close>

record creation =
  c_owner :: provider_ref
  c_key :: type_index
  c_index :: nat
  c_provider :: provider_ref
  c_type :: ServiceType

record state =
  root :: provider_members
  scopes :: "nat \<Rightarrow> provider_members"
  next_scope :: nat
  next_address :: nat
  created :: "creation list"

definition empty_members :: provider_members where
  "empty_members = \<lparr>initializationOrder = [], instances = Map.empty\<rparr>"

text \<open>\<^verbatim>\<open>ServiceCollection::build\<close>: a provider with nothing constructed and no scope.\<close>

definition build :: state where
  "build = \<lparr>root = empty_members, scopes = (\<lambda>_. empty_members), next_scope = 0,
            next_address = 0, created = []\<rparr>"

fun members :: "state \<Rightarrow> provider_ref \<Rightarrow> provider_members" where
  "members s Root = root s"
| "members s (Scope k) = scopes s k"

fun update_members :: "provider_ref \<Rightarrow> (provider_members \<Rightarrow> provider_members) \<Rightarrow> state \<Rightarrow> state" where
  "update_members Root f s = s\<lparr>root := f (root s)\<rparr>"
| "update_members (Scope k) f s = s\<lparr>scopes := (scopes s)(k := f (scopes s k))\<rparr>"

text \<open>\<^verbatim>\<open>createScope\<close>: a new scope object with empty members.\<close>

definition createScope :: "state \<Rightarrow> provider_ref \<times> state" where
  "createScope s =
     (Scope (next_scope s),
      s\<lparr>scopes := (scopes s)(next_scope s := empty_members), next_scope := Suc (next_scope s)\<rparr>)"

text \<open>
  The interface \<^verbatim>\<open>IServiceProvider\<close> as seen by a factory closure: the two virtual
  functions, applied to the provider object they are called on.
\<close>

record IServiceProvider =
  virt_getService :: "provider_ref \<Rightarrow> type_index \<Rightarrow> state \<Rightarrow> (error + any) \<times> state"
  virt_getServices :: "provider_ref \<Rightarrow> type_index \<Rightarrow> state \<Rightarrow> (error + any list) \<times> state"

text \<open>Running a list of steps in order; the first exception ends the run.\<close>

fun in_order :: "('a \<Rightarrow> state \<Rightarrow> (error + 'b) \<times> state) \<Rightarrow> 'a list \<Rightarrow> state \<Rightarrow> (error + 'b list) \<times> state" where
  "in_order f [] s = (Inr [], s)"
| "in_order f (x # xs) s =
     (case f x s of
        (Inl e, s') \<Rightarrow> (Inl e, s')
      | (Inr y, s') \<Rightarrow>
          (case in_order f xs s' of
             (Inl e, s'') \<Rightarrow> (Inl e, s'')
           | (Inr ys, s'') \<Rightarrow> (Inr (y # ys), s'')))"

fun any_cast_reference :: "any \<Rightarrow> error + object" where
  "any_cast_reference (ReferenceWrapper p) = Inr p"
| "any_cast_reference _ = Inl BadAnyCast"

fun any_cast_shared_ptr :: "any \<Rightarrow> error + object" where
  "any_cast_shared_ptr (SharedPtr p) = Inr p"
| "any_cast_shared_ptr _ = Inl BadAnyCast"

fun cast_all :: "(any \<Rightarrow> error + object) \<Rightarrow> any list \<Rightarrow> error + object list" where
  "cast_all c [] = Inr []"
| "cast_all c (a # as) =
     (case c a of
        Inl e \<Rightarrow> Inl e
      | Inr p \<Rightarrow> (case cast_all c as of Inl e \<Rightarrow> Inl e | Inr ps \<Rightarrow> Inr (p # ps)))"

text \<open>
  \<^verbatim>\<open>ServiceFactory::getService<T>(serviceProvider)\<close>, one equation per overload.
\<close>

fun ServiceFactory_getService ::
  "IServiceProvider \<Rightarrow> provider_ref \<Rightarrow> ctor_param \<Rightarrow> state \<Rightarrow> (error + ctor_arg) \<times> state" where
  "ServiceFactory_getService sp p (SharedPtrVector T) s =
     (case virt_getServices sp p (SharedPtrTypeId T) s of
        (Inl e, s') \<Rightarrow> (Inl e, s')
      | (Inr servicesAny, s') \<Rightarrow>
          (case cast_all any_cast_shared_ptr servicesAny of
             Inl e \<Rightarrow> (Inl e, s')
           | Inr services \<Rightarrow> (Inr (PtrVectorArg services), s')))"
| "ServiceFactory_getService sp p (ReferenceVector T) s =
     (case virt_getServices sp p (TypeId T) s of
        (Inl e, s') \<Rightarrow> (Inl e, s')
      | (Inr servicesAny, s') \<Rightarrow>
          (case cast_all any_cast_reference servicesAny of
             Inl e \<Rightarrow> (Inl e, s')
           | Inr services \<Rightarrow> (Inr (RefVectorArg services), s')))"
| "ServiceFactory_getService sp p (BySharedPtr T) s =
     (case virt_getService sp p (SharedPtrTypeId T) s of
        (Inl e, s') \<Rightarrow> (Inl e, s')
      | (Inr a, s') \<Rightarrow>
          (case any_cast_shared_ptr a of
             Inl e \<Rightarrow> (Inl e, s')
           | Inr service \<Rightarrow> (Inr (PtrArg service), s')))"
| "ServiceFactory_getService sp p (ByReference T) s =
     (case virt_getService sp p (TypeId T) s of
        (Inl e, s') \<Rightarrow> (Inl e, s')
      | (Inr a, s') \<Rightarrow>
          (case any_cast_reference a of
             Inl e \<Rightarrow> (Inl e, s')
           | Inr service \<Rightarrow> (Inr (RefArg service), s')))"

text \<open>
  \<^verbatim>\<open>std::make_shared<TService>(args...)\<close>: a new object at the next free address.
\<close>

definition make_shared :: "class_name \<Rightarrow> ctor_arg list \<Rightarrow> state \<Rightarrow> any \<times> state" where
  "make_shared T args s =
     (SharedPtr (Object (next_address s) T args), s\<lparr>next_address := Suc (next_address s)\<rparr>)"

text \<open>
  \<^verbatim>\<open>desc.create(serviceProvider)\<close>. For
  \<^verbatim>\<open>ServiceFactory::create\<close>, \<^verbatim>\<open>createInternal\<close> resolves the parameters
  from the first to the last and then constructs; the other closure returns the pointer
  it has captured.
\<close>

fun call_create :: "FactoryFunction \<Rightarrow> IServiceProvider \<Rightarrow> provider_ref \<Rightarrow> state \<Rightarrow> (error + any) \<times> state" where
  "call_create (ServiceFactory T ps) sp p s =
     (case in_order (ServiceFactory_getService sp p) ps s of
        (Inl e, s') \<Rightarrow> (Inl e, s')
      | (Inr args, s') \<Rightarrow> (case make_shared T args s' of (a, s'') \<Rightarrow> (Inr a, s'')))"
| "call_create (ExistingService T n) sp p s = (Inr (SharedPtr (Existing T n)), s)"

definition record_creation ::
  "provider_ref \<Rightarrow> type_index \<Rightarrow> nat \<Rightarrow> provider_ref \<Rightarrow> ServiceType \<Rightarrow> state \<Rightarrow> state" where
  "record_creation this key index p t s =
     s\<lparr>created := created s @
        [\<lparr>c_owner = this, c_key = key, c_index = index, c_provider = p, c_type = t\<rparr>]\<rparr>"

text \<open>
  The steps on the table of the provider \<open>this\<close>:
  \<^verbatim>\<open>_instances.emplace\<close> followed by \<^verbatim>\<open>make_unique<ConcurrentService[]>\<close> when
  the key was missing, a write to one slot of the array, and
  \<^verbatim>\<open>_initializationOrder.emplace_back\<close>.
\<close>

definition new_slot :: ConcurrentService where
  "new_slot = \<lparr>initialized = False, serviceFuture = None\<rparr>"

definition emplace_instances :: "provider_ref \<Rightarrow> type_index \<Rightarrow> nat \<Rightarrow> state \<Rightarrow> state" where
  "emplace_instances this key n s =
     (case instances (members s this) key of
        None \<Rightarrow> update_members this (\<lambda>m. m\<lparr>instances := (instances m)(key \<mapsto> replicate n new_slot)\<rparr>) s
      | Some _ \<Rightarrow> s)"

definition write_slot :: "provider_ref \<Rightarrow> type_index \<Rightarrow> nat \<Rightarrow> ConcurrentService \<Rightarrow> state \<Rightarrow> state" where
  "write_slot this key index c s =
     (case instances (members s this) key of
        None \<Rightarrow> s
      | Some arr \<Rightarrow> update_members this (\<lambda>m. m\<lparr>instances := (instances m)(key \<mapsto> arr[index := c])\<rparr>) s)"

definition emplace_back_order :: "provider_ref \<Rightarrow> any \<Rightarrow> state \<Rightarrow> state" where
  "emplace_back_order this a s =
     update_members this (\<lambda>m. m\<lparr>initializationOrder := initializationOrder m @ [a]\<rparr>) s"

definition slot_at :: "state \<Rightarrow> provider_ref \<Rightarrow> type_index \<Rightarrow> nat \<Rightarrow> ConcurrentService option" where
  "slot_at s this key index =
     (case instances (members s this) key of
        None \<Rightarrow> None
      | Some arr \<Rightarrow> if index < length arr then Some (arr ! index) else None)"

text \<open>
  The static \<^verbatim>\<open>ScopedServiceProvider::getService(factories,
  serviceProviderForThisService, serviceProviderForDependentSerices, index)\<close>.
  \<^verbatim>\<open>at(index)\<close> throws beyond the end of the vector; indexing the raw array beyond
  its end is undefined; \<^verbatim>\<open>serviceFuture.get()\<close> on a slot that is claimed and
  whose promise nobody will fulfil never returns.
\<close>

definition getService_static ::
  "IServiceProvider \<Rightarrow> type_index \<Rightarrow> FactoryFunctionCollection \<Rightarrow> provider_ref \<Rightarrow> provider_ref \<Rightarrow> nat
     \<Rightarrow> state \<Rightarrow> (error + any) \<times> state" where
  "getService_static sp key descs this p index s =
     (if length descs \<le> index then (Inl OutOfRange, s)
      else
        let desc = descs ! index in
        if type desc = Singleton \<or> type desc = Scoped then
          let s1 = emplace_instances this key (length descs) s in
          (case slot_at s1 this key index of
             None \<Rightarrow> (Inl UndefinedBehaviour, s1)
           | Some c \<Rightarrow>
               if \<not> initialized c then
                 let s2 = write_slot this key index (c\<lparr>initialized := True\<rparr>) s1 in
                 (case call_create (create desc) sp p (record_creation this key index p (type desc) s2) of
                    (Inl e, s3) \<Rightarrow> (Inl e, s3)
                  | (Inr a, s3) \<Rightarrow>
                      let s4 = write_slot this key index \<lparr>initialized = True, serviceFuture = Some a\<rparr> s3;
                          s5 = emplace_back_order this a s4
                      in (apply_convert (convert desc) a, s5))
               else
                 (case serviceFuture c of
                    None \<Rightarrow> (Inl Deadlock, s1)
                  | Some a \<Rightarrow> (apply_convert (convert desc) a, s1)))
        else
          (case call_create (create desc) sp p (record_creation this key index p (type desc) s) of
             (Inl e, s') \<Rightarrow> (Inl e, s')
           | (Inr a, s') \<Rightarrow> (apply_convert (convert desc) a, s')))"

text \<open>
  \<^verbatim>\<open>factoryIt->second.size() - 1\<close> is computed in \<^verbatim>\<open>size_t\<close> and wraps
  for an empty vector.
\<close>

definition size_minus_one :: "'a list \<Rightarrow> nat" where
  "size_minus_one xs = (length xs + 2 ^ 64 - 1) mod 2 ^ 64"

text \<open>\<^verbatim>\<open>ServiceProvider::getService\<close> and \<^verbatim>\<open>ServiceProvider::getServices\<close>.\<close>

definition ServiceProvider_getService ::
  "IServiceProvider \<Rightarrow> factories \<Rightarrow> type_index \<Rightarrow> state \<Rightarrow> (error + any) \<times> state" where
  "ServiceProvider_getService sp fs ty s =
     (case fs ty of
        None \<Rightarrow> (Inr NoValue, s)
      | Some descs \<Rightarrow> getService_static sp ty descs Root Root (size_minus_one descs) s)"

definition ServiceProvider_getServices ::
  "IServiceProvider \<Rightarrow> factories \<Rightarrow> type_index \<Rightarrow> state \<Rightarrow> (error + any list) \<times> state" where
  "ServiceProvider_getServices sp fs ty s =
     (case fs ty of
        None \<Rightarrow> (Inr [], s)
      | Some descs \<Rightarrow> in_order (getService_static sp ty descs Root Root) [0..<length descs] s)"

text \<open>
  \<^verbatim>\<open>ScopedServiceProvider::getService\<close> and
  \<^verbatim>\<open>ScopedServiceProvider::getServices\<close> of the scope \<open>k\<close>. The single lookup
  reads the life-time of \<^verbatim>\<open>factoryIt->second.front()\<close>; \<^verbatim>\<open>front()\<close> of an
  empty vector is undefined.
\<close>

definition ScopedServiceProvider_getService ::
  "IServiceProvider \<Rightarrow> factories \<Rightarrow> nat \<Rightarrow> type_index \<Rightarrow> state \<Rightarrow> (error + any) \<times> state" where
  "ScopedServiceProvider_getService sp fs k ty s =
     (case fs ty of
        None \<Rightarrow> (Inr NoValue, s)
      | Some descs \<Rightarrow>
          (case descs of
             [] \<Rightarrow> (Inl UndefinedBehaviour, s)
           | desc # _ \<Rightarrow>
               if type desc = Scoped
               then getService_static sp ty descs (Scope k) (Scope k) (size_minus_one descs) s
               else getService_static sp ty descs Root (Scope k) (size_minus_one descs) s))"

definition ScopedServiceProvider_getServices ::
  "IServiceProvider \<Rightarrow> factories \<Rightarrow> nat \<Rightarrow> type_index \<Rightarrow> state \<Rightarrow> (error + any list) \<times> state" where
  "ScopedServiceProvider_getServices sp fs k ty s =
     (case fs ty of
        None \<Rightarrow> (Inr [], s)
      | Some descs \<Rightarrow>
          in_order
            (\<lambda>i. if type (descs ! i) = Scoped
                  then getService_static sp ty descs (Scope k) (Scope k) i
                  else getService_static sp ty descs Root (Scope k) i)
            [0..<length descs] s)"

text \<open>
  Virtual dispatch on the provider object. A factory closure calls back into the
  provider, so the calls nest; \<open>provider n\<close> answers calls that nest at most \<open>n\<close> deep
  and reports \<open>OutOfFuel\<close> beyond.
\<close>

fun dispatch_getService ::
  "IServiceProvider \<Rightarrow> factories \<Rightarrow> provider_ref \<Rightarrow> type_index \<Rightarrow> state \<Rightarrow> (error + any) \<times> state" where
  "dispatch_getService sp fs Root ty s = ServiceProvider_getService sp fs ty s"
| "dispatch_getService sp fs (Scope k) ty s = ScopedServiceProvider_getService sp fs k ty s"

fun dispatch_getServices ::
  "IServiceProvider \<Rightarrow> factories \<Rightarrow> provider_ref \<Rightarrow> type_index \<Rightarrow> state \<Rightarrow> (error + any list) \<times> state" where
  "dispatch_getServices sp fs Root ty s = ServiceProvider_getServices sp fs ty s"
| "dispatch_getServices sp fs (Scope k) ty s = ScopedServiceProvider_getServices sp fs k ty s"

primrec provider :: "nat \<Rightarrow> factories \<Rightarrow> IServiceProvider" where
  "provider 0 fs =
     \<lparr>virt_getService = (\<lambda>p ty s. (Inl OutOfFuel, s)),
      virt_getServices = (\<lambda>p ty s. (Inl OutOfFuel, s))\<rparr>"
| "provider (Suc n) fs =
     \<lparr>virt_getService = dispatch_getService (provider n fs) fs,
      virt_getServices = dispatch_getServices (provider n fs) fs\<rparr>"

definition getService :: "nat \<Rightarrow> factories \<Rightarrow> provider_ref \<Rightarrow> type_index \<Rightarrow> state \<Rightarrow> (error + any) \<times> state" where
  "getService n fs p ty s = dispatch_getService (provider n fs) fs p ty s"

definition getServices :: "nat \<Rightarrow> factories \<Rightarrow> provider_ref \<Rightarrow> type_index \<Rightarrow> state \<Rightarrow> (error + any list) \<times> state" where
  "getServices n fs p ty s = dispatch_getServices (provider n fs) fs p ty s"

text \<open>The object behind a handle.\<close>

fun handle_object :: "any \<Rightarrow> object option" where
  "handle_object NoValue = None"
| "handle_object (SharedPtr obj) = Some obj"
| "handle_object (ReferenceWrapper obj) = Some obj"

text \<open>
  The templates \<^verbatim>\<open>IServiceProvider::getService<TService>\<close> (a pointer, null when
  the \<^verbatim>\<open>std::any\<close> is empty) and
  \<^verbatim>\<open>IServiceProvider::getRequiredService<TService>\<close>.
\<close>

definition getService_T ::
  "nat \<Rightarrow> factories \<Rightarrow> provider_ref \<Rightarrow> class_name \<Rightarrow> state \<Rightarrow> (error + object option) \<times> state" where
  "getService_T n fs p TService s =
     (case getService n fs p (TypeId TService) s of
        (Inl e, s') \<Rightarrow> (Inl e, s')
      | (Inr res, s') \<Rightarrow>
          (if res \<noteq> NoValue
           then (case any_cast_reference res of Inl e \<Rightarrow> (Inl e, s') | Inr service \<Rightarrow> (Inr (Some service), s'))
           else (Inr None, s')))"

definition getRequiredService ::
  "nat \<Rightarrow> factories \<Rightarrow> provider_ref \<Rightarrow> class_name \<Rightarrow> state \<Rightarrow> (error + object) \<times> state" where
  "getRequiredService n fs p TService s =
     (case getService_T n fs p TService s of
        (Inl e, s') \<Rightarrow> (Inl e, s')
      | (Inr (Some service), s') \<Rightarrow> (Inr service, s')
      | (Inr None, s') \<Rightarrow>
          (Inl (LogicError (TService @ '' has not been registered as a singleton or scoped service.'')), s'))"

section \<open>Predicates used in the properties\<close>

definition never_out_of_range :: "IServiceProvider \<Rightarrow> bool" where
  "never_out_of_range sp \<longleftrightarrow>
     (\<forall>p ty s r s'. virt_getService sp p ty s = (r, s') \<longrightarrow> r \<noteq> Inl OutOfRange) \<and>
     (\<forall>p ty s r s'. virt_getServices sp p ty s = (r, s') \<longrightarrow> r \<noteq> Inl OutOfRange)"


text \<open>
  A collection whose lists are non-empty and whose sizes fit \<^verbatim>\<open>size_t\<close>.
\<close>

definition well_formed :: "factories \<Rightarrow> bool" where
  "well_formed fs \<longleftrightarrow> (\<forall>ty ds. fs ty = Some ds \<longrightarrow> ds \<noteq> [] \<and> length ds \<le> 2 ^ 64)"


text \<open>Three implementations registered for one interface, in this order.\<close>

definition xyz_registrations :: "registration list" where
  "xyz_registrations = [AddSingleton ''I'' ''X'' [], AddSingleton ''I'' ''Y'' [], AddSingleton ''I'' ''Z'' []]"

text \<open>
  What the history says about a slot: the key of a call, the calls of descriptions that
  are cached (singleton and scoped), and whether a slot has been claimed.
\<close>

definition key_of :: "creation \<Rightarrow> provider_ref \<times> type_index \<times> nat" where
  "key_of e = (c_owner e, c_key e, c_index e)"

definition cached :: "creation list \<Rightarrow> creation list" where
  "cached es = filter (\<lambda>e. c_type e \<noteq> Transient) es"

definition claimed :: "state \<Rightarrow> provider_ref \<times> type_index \<times> nat \<Rightarrow> bool" where
  "claimed s k =
     (case k of (this, key, i) \<Rightarrow>
        (case slot_at s this key i of None \<Rightarrow> False | Some c \<Rightarrow> initialized c))"

text \<open>A claimed slot is never written by anybody but its claimant.\<close>

definition frozen :: "state \<Rightarrow> state \<Rightarrow> bool" where
  "frozen s s' \<longleftrightarrow>
     (\<forall>this key i c. slot_at s this key i = Some c \<and> initialized c \<longrightarrow> slot_at s' this key i = Some c)"

text \<open>
  The instances a state stores, in a fulfilled promise or in an initialization order, and
  the objects behind them.
\<close>

definition stored :: "state \<Rightarrow> any set" where
  "stored s =
     {v. (\<exists>this key i c. slot_at s this key i = Some c \<and> serviceFuture c = Some v)
         \<or> (\<exists>q. v \<in> set (initializationOrder (members s q)))}"

definition held :: "state \<Rightarrow> object set" where
  "held s = {obj. \<exists>v \<in> stored s. handle_object v = Some obj}"

text \<open>
  An object is allocated in a state when it was captured before \<^verbatim>\<open>build()\<close> or
  its address has been handed out; it has been made since a state when its address had
  not been handed out then.
\<close>

definition allocated :: "state \<Rightarrow> object \<Rightarrow> bool" where
  "allocated s obj \<longleftrightarrow> (case obj of Object a T args \<Rightarrow> a < next_address s | Existing T n \<Rightarrow> True)"

definition made_since :: "state \<Rightarrow> object \<Rightarrow> bool" where
  "made_since s obj \<longleftrightarrow> (case obj of Object a T args \<Rightarrow> next_address s \<le> a | Existing T n \<Rightarrow> True)"

text \<open>
  How a lookup on the provider \<open>p\<close> may change the state: claimed slots stay as they
  are; every factory call that is added to the history was handed \<open>p\<close> and belongs to
  the root or to \<open>p\<close>; the added calls of cached descriptions hit pairwise different
  slots, each unclaimed before and claimed after; other scopes are untouched; addresses
  only grow, the initialization orders only grow at the end, and an instance that is
  stored afterwards was stored before or is a shared pointer to a captured object or to
  an object made since.
\<close>

definition evolves :: "provider_ref \<Rightarrow> state \<Rightarrow> state \<Rightarrow> bool" where
  "evolves p s s' \<longleftrightarrow>
     frozen s s'
     \<and> (\<exists>new. created s' = created s @ new
           \<and> (\<forall>e \<in> set new. c_provider e = p \<and> (c_owner e = Root \<or> c_owner e = p))
           \<and> distinct (map key_of (cached new))
           \<and> (\<forall>e \<in> set (cached new). \<not> claimed s (key_of e) \<and> claimed s' (key_of e)))
     \<and> (\<forall>k. Scope k \<noteq> p \<longrightarrow> scopes s' k = scopes s k)
     \<and> next_scope s' = next_scope s
     \<and> next_address s \<le> next_address s'
     \<and> (\<forall>q. \<exists>more. initializationOrder (members s' q) = initializationOrder (members s q) @ more)
     \<and> (\<forall>v \<in> stored s'. v \<in> stored s \<or> (\<exists>obj. v = SharedPtr obj \<and> made_since s obj))"

definition provider_evolves :: "IServiceProvider \<Rightarrow> bool" where
  "provider_evolves sp \<longleftrightarrow>
     (\<forall>p ty s r s'. virt_getService sp p ty s = (r, s') \<longrightarrow> evolves p s s') \<and>
     (\<forall>p ty s r s'. virt_getServices sp p ty s = (r, s') \<longrightarrow> evolves p s s')"

text \<open>
  The provider objects a caller can hold: the root, and the scopes that
  \<^verbatim>\<open>createScope\<close> has returned.
\<close>

fun provider_exists :: "state \<Rightarrow> provider_ref \<Rightarrow> bool" where
  "provider_exists s Root = True"
| "provider_exists s (Scope k) = (k < next_scope s)"

text \<open>
  One call of the public interface, made by a caller on a provider object it holds, and
  the states that sequences of such calls lead to from a freshly built provider.
\<close>

inductive api_step :: "factories \<Rightarrow> state \<Rightarrow> state \<Rightarrow> bool" for fs :: factories where
  single: "provider_exists s p \<Longrightarrow> getService n fs p ty s = (r, s') \<Longrightarrow> api_step fs s s'"
| multi: "provider_exists s p \<Longrightarrow> getServices n fs p ty s = (rs, s') \<Longrightarrow> api_step fs s s'"
| scope: "createScope s = (p, s') \<Longrightarrow> api_step fs s s'"

definition reachable :: "factories \<Rightarrow> state \<Rightarrow> bool" where
  "reachable fs s \<longleftrightarrow> (api_step fs)\<^sup>*\<^sup>* build s"

text \<open>
  The scopes that have not been handed out yet are empty, every cached description that
  was constructed sits in a claimed slot, and no slot was constructed twice.
\<close>

definition fresh_scopes :: "state \<Rightarrow> bool" where
  "fresh_scopes s \<longleftrightarrow> (\<forall>k. next_scope s \<le> k \<longrightarrow> scopes s k = empty_members)"

definition once :: "state \<Rightarrow> bool" where
  "once s \<longleftrightarrow>
     fresh_scopes s
     \<and> distinct (map key_of (cached (created s)))
     \<and> (\<forall>e \<in> set (cached (created s)). claimed s (key_of e))"

text \<open>The number of factory calls the history holds for a slot.\<close>

definition constructions :: "state \<Rightarrow> provider_ref \<times> type_index \<times> nat \<Rightarrow> nat" where
  "constructions s k = length (filter (\<lambda>e. key_of e = k) (cached (created s)))"

text \<open>The slot is claimed and its promise holds the instance \<open>v\<close>.\<close>

definition published :: "state \<Rightarrow> provider_ref \<Rightarrow> type_index \<Rightarrow> nat \<Rightarrow> any \<Rightarrow> bool" where
  "published s this key i v \<longleftrightarrow>
     slot_at s this key i = Some \<lparr>initialized = True, serviceFuture = Some v\<rparr>"

text \<open>
  The provider whose table a lookup on \<open>p\<close> uses
  (\<^verbatim>\<open>serviceProviderForThisService\<close>): the single lookup of a scope decides by the
  life-time of the first description of the key, the multi lookup by the life-time of
  each description; the root always uses its own table.
\<close>

fun single_lookup_owner :: "FactoryFunctionCollection \<Rightarrow> provider_ref \<Rightarrow> provider_ref" where
  "single_lookup_owner descs Root = Root"
| "single_lookup_owner descs (Scope k) =
     (case descs of [] \<Rightarrow> Root | d # _ \<Rightarrow> if type d = Scoped then Scope k else Root)"

fun multi_lookup_owner :: "FactoryFunctionCollection \<Rightarrow> provider_ref \<Rightarrow> nat \<Rightarrow> provider_ref" where
  "multi_lookup_owner descs Root i = Root"
| "multi_lookup_owner descs (Scope k) i = (if type (descs ! i) = Scoped then Scope k else Root)"

text \<open>
  Every promise that has been fulfilled holds a shared pointer to an object of the
  implementation its description names, at an address that has been handed out; the same
  holds for the addresses in every initialization order.
\<close>

definition sound :: "factories \<Rightarrow> state \<Rightarrow> bool" where
  "sound fs s \<longleftrightarrow>
     (\<forall>this key i c v. slot_at s this key i = Some c \<and> serviceFuture c = Some v \<longrightarrow>
        (\<exists>descs obj. fs key = Some descs \<and> i < length descs \<and> v = SharedPtr obj
           \<and> dynamic_type obj = implementation (create (descs ! i))
           \<and> allocated s obj))
     \<and> (\<forall>q v. v \<in> set (initializationOrder (members s q)) \<longrightarrow>
           (\<exists>obj. v = SharedPtr obj \<and> allocated s obj))"

definition keeps_sound :: "factories \<Rightarrow> state \<Rightarrow> state \<Rightarrow> bool" where
  "keeps_sound fs s s' \<longleftrightarrow> (sound fs s \<longrightarrow> sound fs s')"

definition provider_sound :: "factories \<Rightarrow> IServiceProvider \<Rightarrow> bool" where
  "provider_sound fs sp \<longleftrightarrow>
     (\<forall>p ty s r s'. virt_getService sp p ty s = (r, s') \<longrightarrow> keeps_sound fs s s') \<and>
     (\<forall>p ty s r s'. virt_getServices sp p ty s = (r, s') \<longrightarrow> keeps_sound fs s s')"

text \<open>
  Between two states addresses have only grown, and every instance stored in the later
  one was stored in the earlier one or was allocated in between.
\<close>

definition grows :: "state \<Rightarrow> state \<Rightarrow> bool" where
  "grows s s' \<longleftrightarrow>
     next_address s \<le> next_address s'
     \<and> (\<forall>v \<in> stored s'. v \<in> stored s \<or> (\<exists>obj. v = SharedPtr obj \<and> made_since s obj))"

text \<open>
  What a resolution changes in the tables and in the initialization orders is accounted
  for by the factory calls of cached descriptions that it adds to the history: a table
  changes under a key only if the factory of a singleton or scoped description of this
  key was called for this table, and an initialization order grows by at most one
  instance for each such call for its provider.
\<close>

definition accounted :: "state \<Rightarrow> state \<Rightarrow> bool" where
  "accounted s s' \<longleftrightarrow>
     (\<exists>new. created s' = created s @ new
        \<and> (\<forall>q key. instances (members s' q) key \<noteq> instances (members s q) key \<longrightarrow>
              (\<exists>e \<in> set (cached new). c_owner e = q \<and> c_key e = key))
        \<and> (\<forall>q. \<exists>more. initializationOrder (members s' q) = initializationOrder (members s q) @ more
              \<and> length more \<le> length (filter (\<lambda>e. c_owner e = q) (cached new))))"

definition provider_accounted :: "IServiceProvider \<Rightarrow> bool" where
  "provider_accounted sp \<longleftrightarrow>
     (\<forall>p ty s r s'. virt_getService sp p ty s = (r, s') \<longrightarrow> accounted s s') \<and>
     (\<forall>p ty s r s'. virt_getServices sp p ty s = (r, s') \<longrightarrow> accounted s s')"

text \<open>
  A slot is pending when it is claimed and its promise has not been fulfilled: a lookup
  that finds it so waits for ever. A state is settled when no slot is pending. The
  array of a key has one slot for each description of the key.
\<close>

definition pending :: "state \<Rightarrow> provider_ref \<times> type_index \<times> nat \<Rightarrow> bool" where
  "pending s k =
     (case k of (this, key, i) \<Rightarrow>
        (case slot_at s this key i of None \<Rightarrow> False
         | Some c \<Rightarrow> initialized c \<and> serviceFuture c = None))"

definition settled :: "state \<Rightarrow> bool" where
  "settled s \<longleftrightarrow> (\<forall>k. \<not> pending s k)"

definition fitting :: "factories \<Rightarrow> state \<Rightarrow> bool" where
  "fitting fs s \<longleftrightarrow>
     (\<forall>q key arr. instances (members s q) key = Some arr \<longrightarrow>
        (\<exists>descs. fs key = Some descs \<and> length arr = length descs))"

definition keeps_fitting :: "factories \<Rightarrow> state \<Rightarrow> state \<Rightarrow> bool" where
  "keeps_fitting fs s s' \<longleftrightarrow> (fitting fs s \<longrightarrow> fitting fs s')"

definition provider_fitting :: "factories \<Rightarrow> IServiceProvider \<Rightarrow> bool" where
  "provider_fitting fs sp \<longleftrightarrow>
     (\<forall>p ty s r s'. virt_getService sp p ty s = (r, s') \<longrightarrow> keeps_fitting fs s s') \<and>
     (\<forall>p ty s r s'. virt_getServices sp p ty s = (r, s') \<longrightarrow> keeps_fitting fs s s')"

text \<open>
  The key a constructor parameter asks for, and whether it asks for one service, which
  then has to be registered. A registry is ranked when every description only asks
  for keys of a smaller rank than its own key: the dependencies have no cycle.
\<close>

fun requested_key :: "ctor_param \<Rightarrow> type_index" where
  "requested_key (ByReference T) = TypeId T"
| "requested_key (BySharedPtr T) = SharedPtrTypeId T"
| "requested_key (ReferenceVector T) = TypeId T"
| "requested_key (SharedPtrVector T) = SharedPtrTypeId T"

fun requests_one :: "ctor_param \<Rightarrow> bool" where
  "requests_one (ByReference T) = True"
| "requests_one (BySharedPtr T) = True"
| "requests_one (ReferenceVector T) = False"
| "requests_one (SharedPtrVector T) = False"

fun conversion_for :: "type_index \<Rightarrow> ConversionFunction" where
  "conversion_for (TypeId T) = ToReference"
| "conversion_for (SharedPtrTypeId T) = ToSharedPtr"

definition ranked :: "factories \<Rightarrow> (type_index \<Rightarrow> nat) \<Rightarrow> bool" where
  "ranked fs rank \<longleftrightarrow>
     (\<forall>key descs. fs key = Some descs \<longrightarrow>
        descs \<noteq> [] \<and> length descs \<le> 2 ^ 64
        \<and> (\<forall>d \<in> set descs. convert d = conversion_for key
              \<and> (\<forall>prm \<in> set (parameters (create d)).
                    rank (requested_key prm) < rank key
                    \<and> (requests_one prm \<longrightarrow> fs (requested_key prm) \<noteq> None))))"

text \<open>
  A state is ready for the resolution of a key of rank \<open>r\<close> when it is sound, its arrays
  fit and its pending slots belong to keys of rank \<open>r\<close> or more: they are the slots
  whose construction is under way further out. A resolution is calm when it keeps this
  and leaves no slot pending that was not pending before.
\<close>

definition ready :: "factories \<Rightarrow> (type_index \<Rightarrow> nat) \<Rightarrow> nat \<Rightarrow> state \<Rightarrow> bool" where
  "ready fs rank r s \<longleftrightarrow>
     sound fs s \<and> fitting fs s \<and> (\<forall>this key i. pending s (this, key, i) \<longrightarrow> r \<le> rank key)"

definition calm :: "factories \<Rightarrow> state \<Rightarrow> state \<Rightarrow> bool" where
  "calm fs s s' \<longleftrightarrow>
     (sound fs s \<longrightarrow> sound fs s') \<and> (fitting fs s \<longrightarrow> fitting fs s') \<and> (\<forall>k. pending s' k \<longrightarrow> pending s k)"

text \<open>
  The provider answers the keys below the rank \<open>n\<close>: from a state that is ready for the
  key, a single lookup returns a handle, the conversion of a shared pointer by the last
  description, and a multi lookup returns one handle for each description.
\<close>

definition answers :: "factories \<Rightarrow> (type_index \<Rightarrow> nat) \<Rightarrow> IServiceProvider \<Rightarrow> nat \<Rightarrow> bool" where
  "answers fs rank sp n \<longleftrightarrow>
     (\<forall>p ty s. rank ty < n \<and> ready fs rank (Suc (rank ty)) s \<longrightarrow>
        (\<exists>a s'. virt_getService sp p ty s = (Inr a, s') \<and> calm fs s s'
           \<and> (case fs ty of None \<Rightarrow> a = NoValue
               | Some descs \<Rightarrow> (\<exists>obj. apply_convert (convert (last descs)) (SharedPtr obj) = Inr a)))) \<and>
     (\<forall>p ty s. rank ty < n \<and> ready fs rank (Suc (rank ty)) s \<longrightarrow>
        (\<exists>as s'. virt_getServices sp p ty s = (Inr as, s') \<and> calm fs s s'
           \<and> (case fs ty of None \<Rightarrow> as = []
               | Some descs \<Rightarrow>
                   list_all2 (\<lambda>d a. \<exists>obj. apply_convert (convert d) (SharedPtr obj) = Inr a) descs as)))"

text \<open>The provider of the three implementations after one single lookup on the root.\<close>

definition xyz_after_lookup :: state where
  "xyz_after_lookup = snd (getService 1 (collect xyz_registrations) Root (TypeId ''I'') build)"

text \<open>
  A singleton \<open>G\<close>, a scoped service \<open>S\<close> that takes \<open>G\<close> by reference and a
  transient service \<open>T\<close> that takes \<open>S\<close> by reference; a provider with two scopes.
\<close>

definition gst_registrations :: "registration list" where
  "gst_registrations =
     [AddSingleton ''G'' ''G'' [], AddScoped ''S'' ''S'' [ByReference ''G''],
      AddTransient ''T'' ''T'' [ByReference ''S'']]"

definition two_scopes :: state where
  "two_scopes = snd (createScope (snd (createScope build)))"

definition gst_after_first :: state where
  "gst_after_first =
     snd (getService 3 (collect gst_registrations) (Scope 0) (SharedPtrTypeId ''T'') two_scopes)"

definition gst_after_second :: state where
  "gst_after_second =
     snd (getService 3 (collect gst_registrations) (Scope 1) (SharedPtrTypeId ''T'') gst_after_first)"

text \<open>
  One interface with a scoped implementation registered first and a singleton
  implementation registered last, and the same the other way round.
\<close>

definition scoped_then_singleton :: "registration list" where
  "scoped_then_singleton = [AddScoped ''I'' ''X'' [], AddSingleton ''I'' ''Y'' []]"

definition singleton_then_scoped :: "registration list" where
  "singleton_then_scoped = [AddSingleton ''I'' ''X'' [], AddScoped ''I'' ''Y'' []]"

definition sts_first :: state where
  "sts_first = snd (getService 1 (collect scoped_then_singleton) (Scope 0) (TypeId ''I'') two_scopes)"

definition sts_second :: state where
  "sts_second = snd (getService 1 (collect scoped_then_singleton) (Scope 1) (TypeId ''I'') sts_first)"

definition sts_third :: state where
  "sts_third = snd (getService 1 (collect scoped_then_singleton) Root (TypeId ''I'') sts_second)"

definition sos_first :: state where
  "sos_first = snd (getService 1 (collect singleton_then_scoped) (Scope 0) (TypeId ''I'') two_scopes)"

definition sos_second :: state where
  "sos_second = snd (getService 1 (collect singleton_then_scoped) (Scope 1) (TypeId ''I'') sos_first)"

text \<open>
  Three implementations of \<open>I\<close>, two of which take a logger \<open>L\<close> by reference; the
  logger is registered after the first of them. The logger has rank 0, the other keys
  rank 1.
\<close>

definition logged_registrations :: "registration list" where
  "logged_registrations =
     [AddSingleton ''I'' ''X'' [ByReference ''L''], AddSingleton ''L'' ''L'' [],
      AddSingleton ''I'' ''Y'' [], AddSingleton ''I'' ''Z'' [ByReference ''L'']]"

definition logged_rank :: "type_index \<Rightarrow> nat" where
  "logged_rank ty = (if ty = TypeId ''L'' then 0 else 1)"

text \<open>
  The ranks of the keys of \<open>G\<close>, \<open>S\<close> and \<open>T\<close>.
\<close>

definition gst_rank :: "type_index \<Rightarrow> nat" where
  "gst_rank ty = (if ty = TypeId ''G'' then 0 else if ty = TypeId ''S'' then 1 else 2)"

text \<open>
  A transient registration whose factory closure returns an instance of \<open>E\<close> that it has
  captured: \<^verbatim>\<open>services.addTransient<I>([e](IServiceProvider&) { return e; })\<close>.
\<close>

definition captured_registrations :: "registration list" where
  "captured_registrations = [AddTransientFactory ''I'' (ExistingService ''E'' 0)]"

text \<open>
  An instance is new to a lookup that leads from \<open>s\<close> to \<open>s'\<close> when it is an object
  whose address was handed out during the lookup, which no table and no initialization
  order stores, neither before the lookup nor after it nor in any later state, and which
  no later lookup of any key on any provider returns.
\<close>

definition fresh_instance :: "factories \<Rightarrow> state \<Rightarrow> state \<Rightarrow> object \<Rightarrow> bool" where
  "fresh_instance fs s s' obj \<longleftrightarrow>
     (\<exists>a T args. obj = Object a T args \<and> next_address s \<le> a \<and> a < next_address s')
     \<and> obj \<notin> held s \<and> obj \<notin> held s'
     \<and> (\<forall>t. (api_step fs)\<^sup>*\<^sup>* s' t \<longrightarrow>
           obj \<notin> held t
           \<and> (\<forall>m q ty b t'. getService m fs q ty t = (Inr b, t') \<longrightarrow> handle_object b \<noteq> Some obj)
           \<and> (\<forall>m q ty bs t'. getServices m fs q ty t = (Inr bs, t') \<longrightarrow>
                 (\<forall>b \<in> set bs. handle_object b \<noteq> Some obj)))"

text \<open>The factory calls that a lookup from \<open>s\<close> to \<open>s'\<close> has added to the history.\<close>

definition calls_between :: "state \<Rightarrow> state \<Rightarrow> creation list" where
  "calls_between s s' = drop (length (created s)) (created s')"

text \<open>
  The destructors \<^verbatim>\<open>~ServiceProvider\<close> and \<^verbatim>\<open>~ScopedServiceProvider\<close>:
  \<^verbatim>\<open>_instances.clear()\<close>, then \<^verbatim>\<open>pop_back()\<close> until the initialization order is
  empty. The loop yields the instances in the order in which it releases them.
\<close>

function pop_back_all :: "'a list \<Rightarrow> 'a list" where
  "pop_back_all order = (if order = [] then [] else last order # pop_back_all (butlast order))"
  by pat_completeness auto
termination
  by (relation "measure length") auto

declare pop_back_all.simps [simp del]

definition ServiceProvider_destructor :: "state \<Rightarrow> any list \<times> state" where
  "ServiceProvider_destructor s =
     (pop_back_all (initializationOrder (root s)),
      s\<lparr>root := \<lparr>initializationOrder = [], instances = Map.empty\<rparr>\<rparr>)"

definition ScopedServiceProvider_destructor :: "nat \<Rightarrow> state \<Rightarrow> any list \<times> state" where
  "ScopedServiceProvider_destructor k s =
     (pop_back_all (initializationOrder (scopes s k)),
      s\<lparr>scopes := (scopes s)(k := \<lparr>initializationOrder = [], instances = Map.empty\<rparr>)\<rparr>)"

text \<open>The key and the description a registration call adds.\<close>

fun description_of :: "registration \<Rightarrow> type_index \<times> ServiceDescription" where
  "description_of (AddSingleton s i ps) =
     (TypeId s, \<lparr>create = ServiceFactory i ps, convert = ToReference, type = Singleton\<rparr>)"
| "description_of (AddScoped s i ps) =
     (TypeId s, \<lparr>create = ServiceFactory i ps, convert = ToReference, type = Scoped\<rparr>)"
| "description_of (AddTransient s i ps) =
     (SharedPtrTypeId s, \<lparr>create = ServiceFactory i ps, convert = ToSharedPtr, type = Transient\<rparr>)"
| "description_of (AddSingletonFactory s f) =
     (TypeId s, \<lparr>create = f, convert = ToReference, type = Singleton\<rparr>)"
| "description_of (AddScopedFactory s f) =
     (TypeId s, \<lparr>create = f, convert = ToReference, type = Scoped\<rparr>)"
| "description_of (AddSingletonExisting s i n) =
     (TypeId s, \<lparr>create = ExistingService i n, convert = ToReference, type = Singleton\<rparr>)"
| "description_of (AddTransientFactory s f) =
     (SharedPtrTypeId s, \<lparr>create = f, convert = ToSharedPtr, type = Transient\<rparr>)"

definition registered_for :: "type_index \<Rightarrow> registration list \<Rightarrow> ServiceDescription list" where
  "registered_for ty rs = map (\<lambda>r. snd (description_of r)) (filter (\<lambda>r. fst (description_of r) = ty) rs)"









text \<open>
  The same condition on the registrations: every constructor parameter asks for a key of
  a smaller rank than the key of the registration, and a parameter that asks for one
  service asks for a key that is registered.
\<close>

definition acyclic :: "(type_index \<Rightarrow> nat) \<Rightarrow> registration list \<Rightarrow> bool" where
  "acyclic rank rs \<longleftrightarrow>
     (\<forall>r \<in> set rs. \<forall>prm \<in> set (parameters (create (snd (description_of r)))).
        rank (requested_key prm) < rank (fst (description_of r))
        \<and> (requests_one prm \<longrightarrow> (\<exists>r' \<in> set rs. fst (description_of r') = requested_key prm)))"


subsection \<open>The earlier implementation without synchronisation\<close>

text \<open>
  The earlier \<^verbatim>\<open>ServiceProvider\<close> and \<^verbatim>\<open>ScopedServiceProvider\<close> keep, for
  every key, a \<^verbatim>\<open>std::vector<std::any>\<close> of instances; an element without a value
  stands for an instance that has not been constructed. The registry and the
  descriptions are those of the current implementation.
\<close>

record legacy_members =
  legacy_initializationOrder :: "any list"
  legacy_instances :: "type_index \<rightharpoonup> any list"

record legacy_state =
  legacy_root :: legacy_members
  legacy_scopes :: "nat \<Rightarrow> legacy_members"
  legacy_next_scope :: nat
  legacy_next_address :: nat



fun legacy_members_of :: "legacy_state \<Rightarrow> provider_ref \<Rightarrow> legacy_members" where
  "legacy_members_of t Root = legacy_root t"
| "legacy_members_of t (Scope k) = legacy_scopes t k"

fun legacy_update_members ::
  "provider_ref \<Rightarrow> (legacy_members \<Rightarrow> legacy_members) \<Rightarrow> legacy_state \<Rightarrow> legacy_state" where
  "legacy_update_members Root f t = t\<lparr>legacy_root := f (legacy_root t)\<rparr>"
| "legacy_update_members (Scope k) f t = t\<lparr>legacy_scopes := (legacy_scopes t)(k := f (legacy_scopes t k))\<rparr>"







text \<open>
  The steps on the table of the provider \<open>this\<close>:
  \<^verbatim>\<open>providerInstances.emplace\<close> followed by \<^verbatim>\<open>resize\<close> when the key was
  missing, \<^verbatim>\<open>at(index)\<close>, \<^verbatim>\<open>emplace(std::next(begin(), index), ...)\<close>, which
  inserts in front of the element at \<open>index\<close>, and
  \<^verbatim>\<open>initializationOrder.emplace_back\<close>.
\<close>

definition legacy_emplace_instances :: "provider_ref \<Rightarrow> type_index \<Rightarrow> nat \<Rightarrow> legacy_state \<Rightarrow> legacy_state" where
  "legacy_emplace_instances this key n t =
     (case legacy_instances (legacy_members_of t this) key of
        None \<Rightarrow>
          legacy_update_members this
            (\<lambda>m. m\<lparr>legacy_instances := (legacy_instances m)(key \<mapsto> replicate n NoValue)\<rparr>) t
      | Some _ \<Rightarrow> t)"

definition legacy_at :: "legacy_state \<Rightarrow> provider_ref \<Rightarrow> type_index \<Rightarrow> nat \<Rightarrow> error + any" where
  "legacy_at t this key index =
     (case legacy_instances (legacy_members_of t this) key of
        None \<Rightarrow> Inl UndefinedBehaviour
      | Some xs \<Rightarrow> if index < length xs then Inr (xs ! index) else Inl OutOfRange)"

definition legacy_emplace_at :: "provider_ref \<Rightarrow> type_index \<Rightarrow> nat \<Rightarrow> any \<Rightarrow> legacy_state \<Rightarrow> legacy_state" where
  "legacy_emplace_at this key index a t =
     (case legacy_instances (legacy_members_of t this) key of
        None \<Rightarrow> t
      | Some xs \<Rightarrow>
          legacy_update_members this
            (\<lambda>m. m\<lparr>legacy_instances := (legacy_instances m)(key \<mapsto> take index xs @ a # drop index xs)\<rparr>) t)"

definition legacy_emplace_back_order :: "provider_ref \<Rightarrow> any \<Rightarrow> legacy_state \<Rightarrow> legacy_state" where
  "legacy_emplace_back_order this a t =
     legacy_update_members this
       (\<lambda>m. m\<lparr>legacy_initializationOrder := legacy_initializationOrder m @ [a]\<rparr>) t"










text \<open>
  When the two implementations agree: the same free address and scope counter, the same
  initialization orders, the same keys in the tables, and under every key the same
  instance, or none, at index \<open>0\<close>.
\<close>

definition future_at :: "state \<Rightarrow> provider_ref \<Rightarrow> type_index \<Rightarrow> any option" where
  "future_at s q key = (case slot_at s q key 0 of None \<Rightarrow> None | Some c \<Rightarrow> serviceFuture c)"

definition legacy_value_at :: "legacy_state \<Rightarrow> provider_ref \<Rightarrow> type_index \<Rightarrow> any option" where
  "legacy_value_at t q key =
     (case legacy_at t q key 0 of Inl e \<Rightarrow> None | Inr x \<Rightarrow> if x = NoValue then None else Some x)"








section \<open>Properties\<close>

subsection \<open>The service collection\<close>

lemma size_minus_one_eq: "xs \<noteq> [] \<Longrightarrow> length xs \<le> 2 ^ 64 \<Longrightarrow> size_minus_one xs = length xs - 1"
proof -
  assume a: "xs \<noteq> []" and b: "length xs \<le> 2 ^ 64"
  then obtain m where m: "length xs = Suc m" by (cases xs) auto
  have lt: "m < 2 ^ 64" using b m by simp
  have "(length xs + 2 ^ 64 - 1) mod 2 ^ 64 = (m + 2 ^ 64) mod 2 ^ 64"
    unfolding m by simp
  also have "\<dots> = m" using lt by (simp only: mod_add_self2 mod_less)
  finally show ?thesis by (simp add: size_minus_one_def m)
qed

lemma register_nonempty:
  assumes "\<forall>ty ds. fs ty = Some ds \<longrightarrow> ds \<noteq> [] \<and> length ds \<le> k"
  shows "\<forall>ty ds. register fs r ty = Some ds \<longrightarrow> ds \<noteq> [] \<and> length ds \<le> Suc k"
  using assms
  by (cases r) (fastforce simp: addSingleton_def addScoped_def addTransient_def addService_def
      addSingleton_F_def addScoped_F_def addSingleton_existing_def addTransient_F_def addService_F_def
      emplace_back_description_def split: option.splits if_splits)+

lemma foldl_register_nonempty:
  "\<forall>ty ds. fs ty = Some ds \<longrightarrow> ds \<noteq> [] \<and> length ds \<le> k \<Longrightarrow>
   \<forall>ty ds. foldl register fs rs ty = Some ds \<longrightarrow> ds \<noteq> [] \<and> length ds \<le> k + length rs"
proof (induction rs arbitrary: fs k)
  case Nil
  then show ?case by simp
next
  case (Cons r rs)
  from register_nonempty[OF Cons.prems]
  have "\<forall>ty ds. register fs r ty = Some ds \<longrightarrow> ds \<noteq> [] \<and> length ds \<le> Suc k" .
  from Cons.IH[OF this] show ?case by simp
qed

lemma collect_nonempty:
  "collect rs ty = Some ds \<Longrightarrow> ds \<noteq> [] \<and> length ds \<le> length rs"
  using foldl_register_nonempty[of Map.empty 0 rs] by (simp add: collect_def)

subsection \<open>Case analysis of one resolution\<close>

lemma in_order_no_error:
  assumes "\<And>x s r s'. x \<in> set xs \<Longrightarrow> f x s = (r, s') \<Longrightarrow> r \<noteq> Inl e"
    and "in_order f xs s = (r, s')"
  shows "r \<noteq> Inl e"
  using assms
proof (induction xs arbitrary: s r s')
  case Nil
  then show ?case by auto
next
  case (Cons x xs)
  obtain r1 s1 where f: "f x s = (r1, s1)" by (cases "f x s")
  have hd: "r1 \<noteq> Inl e" using Cons.prems(1)[OF _ f] by simp
  show ?case
  proof (cases r1)
    case (Inl e')
    with f hd Cons.prems(2) show ?thesis by auto
  next
    case (Inr y)
    obtain r2 s2 where rest: "in_order f xs s1 = (r2, s2)" by (cases "in_order f xs s1")
    have "r2 \<noteq> Inl e" using Cons.IH[OF _ rest] Cons.prems(1) by auto
    with f Inr rest Cons.prems(2) show ?thesis by (auto split: sum.splits)
  qed
qed

lemma cast_all_error: "cast_all c as = Inl e \<Longrightarrow> (\<And>a e'. c a = Inl e' \<Longrightarrow> e' = BadAnyCast) \<Longrightarrow> e = BadAnyCast"
  by (induction as arbitrary: e) (auto split: sum.splits)

lemma any_cast_reference_error: "any_cast_reference a = Inl e \<Longrightarrow> e = BadAnyCast"
  by (cases a) auto

lemma any_cast_shared_ptr_error: "any_cast_shared_ptr a = Inl e \<Longrightarrow> e = BadAnyCast"
  by (cases a) auto

lemma apply_convert_error: "apply_convert c a = Inl e \<Longrightarrow> e = BadAnyCast"
  by (cases c; cases a) auto

lemma ServiceFactory_getService_cases [consumes 1, case_names failed cast_failed resolved]:
  assumes "ServiceFactory_getService sp p prm s = (r, s')"
  obtains
    e T where "r = Inl e"
      "(virt_getService sp p (TypeId T) s = (Inl e, s') \<and> prm = ByReference T)
       \<or> (virt_getService sp p (SharedPtrTypeId T) s = (Inl e, s') \<and> prm = BySharedPtr T)
       \<or> (virt_getServices sp p (TypeId T) s = (Inl e, s') \<and> prm = ReferenceVector T)
       \<or> (virt_getServices sp p (SharedPtrTypeId T) s = (Inl e, s') \<and> prm = SharedPtrVector T)"
  | T where "r = Inl BadAnyCast"
      "(\<exists>a. virt_getService sp p (TypeId T) s = (Inr a, s') \<and> prm = ByReference T)
       \<or> (\<exists>a. virt_getService sp p (SharedPtrTypeId T) s = (Inr a, s') \<and> prm = BySharedPtr T)
       \<or> (\<exists>as. virt_getServices sp p (TypeId T) s = (Inr as, s') \<and> prm = ReferenceVector T)
       \<or> (\<exists>as. virt_getServices sp p (SharedPtrTypeId T) s = (Inr as, s') \<and> prm = SharedPtrVector T)"
  | arg T where "r = Inr arg"
      "(\<exists>q. virt_getService sp p (TypeId T) s = (Inr (ReferenceWrapper q), s') \<and> prm = ByReference T \<and> arg = RefArg q)
       \<or> (\<exists>q. virt_getService sp p (SharedPtrTypeId T) s = (Inr (SharedPtr q), s') \<and> prm = BySharedPtr T \<and> arg = PtrArg q)
       \<or> (\<exists>as qs. virt_getServices sp p (TypeId T) s = (Inr as, s') \<and> prm = ReferenceVector T
              \<and> cast_all any_cast_reference as = Inr qs \<and> arg = RefVectorArg qs)
       \<or> (\<exists>as qs. virt_getServices sp p (SharedPtrTypeId T) s = (Inr as, s') \<and> prm = SharedPtrVector T
              \<and> cast_all any_cast_shared_ptr as = Inr qs \<and> arg = PtrVectorArg qs)"
proof (cases prm)
  case (ByReference T)
  with assms that show ?thesis
    by (auto split: prod.splits sum.splits any.splits dest: any_cast_reference_error
        elim!: any_cast_reference.elims)
next
  case (BySharedPtr T)
  with assms that show ?thesis
    by (auto split: prod.splits sum.splits dest: any_cast_shared_ptr_error
        elim!: any_cast_shared_ptr.elims)
next
  case (ReferenceVector T)
  with assms that show ?thesis
    by (auto split: prod.splits sum.splits dest!: cast_all_error dest: any_cast_reference_error)
next
  case (SharedPtrVector T)
  with assms that show ?thesis
    by (auto split: prod.splits sum.splits dest!: cast_all_error dest: any_cast_shared_ptr_error)
qed

lemma ServiceFactory_getService_no_oor:
  assumes "never_out_of_range sp" and "ServiceFactory_getService sp p prm s = (r, s')"
  shows "r \<noteq> Inl OutOfRange"
  using assms(2)
proof (cases rule: ServiceFactory_getService_cases)
  case (failed e T)
  with assms(1) show ?thesis unfolding never_out_of_range_def by blast
qed simp_all

lemma call_create_cases [consumes 1, case_names failed created existing]:
  assumes "call_create f sp p s = (r, s')"
  obtains
    e T ps where "f = ServiceFactory T ps"
      "in_order (ServiceFactory_getService sp p) (parameters f) s = (Inl e, s')" "r = Inl e"
  | args s1 T ps where "f = ServiceFactory T ps"
      "in_order (ServiceFactory_getService sp p) (parameters f) s = (Inr args, s1)"
      "r = Inr (SharedPtr (Object (next_address s1) (implementation f) args))"
      "s' = s1\<lparr>next_address := Suc (next_address s1)\<rparr>"
  | T n where "f = ExistingService T n" "r = Inr (SharedPtr (Existing T n))" "s' = s"
proof (cases f)
  case (ServiceFactory T ps)
  with assms that(1,2) show ?thesis
    by (auto simp: make_shared_def split: prod.splits sum.splits)
next
  case (ExistingService T n)
  with assms that(3) show ?thesis by auto
qed

lemma call_create_no_oor:
  assumes "never_out_of_range sp" and "call_create f sp p s = (r, s')"
  shows "r \<noteq> Inl OutOfRange"
  using assms(2)
proof (cases rule: call_create_cases)
  case (failed e T ps)
  from in_order_no_error[OF _ failed(2)] ServiceFactory_getService_no_oor[OF assms(1)]
  show ?thesis using failed(3) by blast
qed simp_all

lemma getService_static_cases [consumes 1, case_names out_of_range undefined failed constructed deadlock cached transient_failed transient]:
  assumes "getService_static sp key descs this p index s = (r, s')"
  obtains
    "length descs \<le> index" "r = Inl OutOfRange" "s' = s"
  | "index < length descs" "type (descs ! index) \<noteq> Transient"
    "slot_at (emplace_instances this key (length descs) s) this key index = None"
    "r = Inl UndefinedBehaviour" "s' = emplace_instances this key (length descs) s"
  | c e where "index < length descs" "type (descs ! index) \<noteq> Transient"
    "slot_at (emplace_instances this key (length descs) s) this key index = Some c"
    "\<not> initialized c"
    "call_create (create (descs ! index)) sp p
       (record_creation this key index p (type (descs ! index))
         (write_slot this key index (c\<lparr>initialized := True\<rparr>)
           (emplace_instances this key (length descs) s))) = (Inl e, s')"
    "r = Inl e"
  | c a s3 where "index < length descs" "type (descs ! index) \<noteq> Transient"
    "slot_at (emplace_instances this key (length descs) s) this key index = Some c"
    "\<not> initialized c"
    "call_create (create (descs ! index)) sp p
       (record_creation this key index p (type (descs ! index))
         (write_slot this key index (c\<lparr>initialized := True\<rparr>)
           (emplace_instances this key (length descs) s))) = (Inr a, s3)"
    "s' = emplace_back_order this a
            (write_slot this key index \<lparr>initialized = True, serviceFuture = Some a\<rparr> s3)"
    "r = apply_convert (convert (descs ! index)) a"
  | c where "index < length descs" "type (descs ! index) \<noteq> Transient"
    "slot_at (emplace_instances this key (length descs) s) this key index = Some c"
    "initialized c" "serviceFuture c = None" "r = Inl Deadlock"
    "s' = emplace_instances this key (length descs) s"
  | c a where "index < length descs" "type (descs ! index) \<noteq> Transient"
    "slot_at (emplace_instances this key (length descs) s) this key index = Some c"
    "initialized c" "serviceFuture c = Some a" "r = apply_convert (convert (descs ! index)) a"
    "s' = emplace_instances this key (length descs) s"
  | e where "index < length descs" "type (descs ! index) = Transient"
    "call_create (create (descs ! index)) sp p
       (record_creation this key index p (type (descs ! index)) s) = (Inl e, s')"
    "r = Inl e"
  | a where "index < length descs" "type (descs ! index) = Transient"
    "call_create (create (descs ! index)) sp p
       (record_creation this key index p (type (descs ! index)) s) = (Inr a, s')"
    "r = apply_convert (convert (descs ! index)) a"
proof (cases "length descs \<le> index")
  case True
  with assms that(1) show ?thesis by (simp add: getService_static_def)
next
  case False
  then have lt: "index < length descs" by simp
  from False have nle: "(length descs \<le> index) = False" by simp
  show ?thesis
  proof (cases "type (descs ! index) = Transient")
    case True
    obtain r1 s1 where cc: "call_create (create (descs ! index)) sp p
        (record_creation this key index p (type (descs ! index)) s) = (r1, s1)"
      by (cases "call_create (create (descs ! index)) sp p
        (record_creation this key index p (type (descs ! index)) s)")
    show ?thesis
    proof (cases r1)
      case (Inl e)
      with assms lt True cc have "r = Inl e" "s' = s1"
        by (simp_all add: getService_static_def Let_def nle)
      with that(7)[OF lt True] cc Inl show ?thesis by simp
    next
      case (Inr a)
      with assms lt True cc have "r = apply_convert (convert (descs ! index)) a" "s' = s1"
        by (simp_all add: getService_static_def Let_def nle)
      with that(8)[OF lt True] cc Inr show ?thesis by simp
    qed
  next
    case nt: False
    then have st: "(type (descs ! index) = Singleton \<or> type (descs ! index) = Scoped) = True"
      by (cases "type (descs ! index)") auto
    let ?s1 = "emplace_instances this key (length descs) s"
    show ?thesis
    proof (cases "slot_at ?s1 this key index")
      case None
      from assms have "r = Inl UndefinedBehaviour \<and> s' = ?s1"
        by (simp add: getService_static_def Let_def st nle None)
      with that(2)[OF lt nt None] show ?thesis by simp
    next
      case (Some c)
      show ?thesis
      proof (cases "initialized c")
        case True
        show ?thesis
        proof (cases "serviceFuture c")
          case None
          from assms have "r = Inl Deadlock \<and> s' = ?s1"
            by (simp add: getService_static_def Let_def st nle Some True None)
          with that(5)[OF lt nt Some True None] show ?thesis by simp
        next
          case (Some a)
          from assms have "r = apply_convert (convert (descs ! index)) a \<and> s' = ?s1"
            by (simp add: getService_static_def Let_def st nle \<open>slot_at ?s1 this key index = Some c\<close> True Some)
          with that(6)[OF lt nt \<open>slot_at ?s1 this key index = Some c\<close> True Some] show ?thesis by simp
        qed
      next
        case False
        let ?s2 = "record_creation this key index p (type (descs ! index))
                     (write_slot this key index (c\<lparr>initialized := True\<rparr>) ?s1)"
        obtain r1 s3 where cc: "call_create (create (descs ! index)) sp p ?s2 = (r1, s3)"
          by (cases "call_create (create (descs ! index)) sp p ?s2")
        show ?thesis
        proof (cases r1)
          case (Inl e)
          from assms have "r = Inl e \<and> s' = s3"
            by (simp add: getService_static_def Let_def st nle Some False cc Inl)
          with that(3)[OF lt nt Some False] cc Inl show ?thesis by simp
        next
          case (Inr a)
          from assms have "r = apply_convert (convert (descs ! index)) a \<and>
              s' = emplace_back_order this a
                (write_slot this key index \<lparr>initialized = True, serviceFuture = Some a\<rparr> s3)"
            by (simp add: getService_static_def Let_def st nle Some False cc Inr)
          with that(4)[OF lt nt Some False] cc Inr show ?thesis by simp
        qed
      qed
    qed
  qed
qed

lemma getService_static_no_oor:
  assumes "never_out_of_range sp" and "index < length descs"
    and "getService_static sp key descs this p index s = (r, s')"
  shows "r \<noteq> Inl OutOfRange"
  using assms(3)
proof (cases rule: getService_static_cases)
  case out_of_range
  with assms(2) show ?thesis by simp
next
  case (failed c e)
  with call_create_no_oor[OF assms(1)] show ?thesis by blast
next
  case (transient_failed e)
  with call_create_no_oor[OF assms(1)] show ?thesis by blast
qed (auto dest: apply_convert_error)


subsection \<open>Lookups never leave the descriptor list\<close>

lemma size_minus_one_less: "xs \<noteq> [] \<Longrightarrow> length xs \<le> 2 ^ 64 \<Longrightarrow> size_minus_one xs < length xs"
  by (simp add: size_minus_one_eq)

lemma dispatch_getService_no_oor:
  assumes wf: "well_formed fs" and sp: "never_out_of_range sp"
    and run: "dispatch_getService sp fs p ty s = (r, s')"
  shows "r \<noteq> Inl OutOfRange"
proof (cases "fs ty")
  case None
  with run show ?thesis
    by (cases p) (auto simp: ServiceProvider_getService_def ScopedServiceProvider_getService_def)
next
  case (Some descs)
  with wf have ne: "descs \<noteq> []" and le: "length descs \<le> 2 ^ 64"
    by (auto simp: well_formed_def)
  have idx: "size_minus_one descs < length descs" by (rule size_minus_one_less[OF ne le])
  from ne obtain d ds where ds: "descs = d # ds" by (cases descs) auto
  show ?thesis
  proof (cases p)
    case Root
    with run Some have "getService_static sp ty descs Root Root (size_minus_one descs) s = (r, s')"
      by (simp add: ServiceProvider_getService_def)
    from getService_static_no_oor[OF sp idx this] show ?thesis .
  next
    case (Scope k)
    with run Some ds have
      "getService_static sp ty descs (Scope k) (Scope k) (size_minus_one descs) s = (r, s')
       \<or> getService_static sp ty descs Root (Scope k) (size_minus_one descs) s = (r, s')"
      by (auto simp: ScopedServiceProvider_getService_def split: if_splits)
    with getService_static_no_oor[OF sp idx] show ?thesis by blast
  qed
qed

lemma dispatch_getServices_no_oor:
  assumes sp: "never_out_of_range sp"
    and run: "dispatch_getServices sp fs p ty s = (r, s')"
  shows "r \<noteq> Inl OutOfRange"
proof (cases "fs ty")
  case None
  with run show ?thesis
    by (cases p) (auto simp: ServiceProvider_getServices_def ScopedServiceProvider_getServices_def)
next
  case (Some descs)
  show ?thesis
  proof (cases p)
    case Root
    with run Some have io: "in_order (getService_static sp ty descs Root Root) [0..<length descs] s = (r, s')"
      by (simp add: ServiceProvider_getServices_def)
    show ?thesis
      by (rule in_order_no_error[OF _ io]) (use getService_static_no_oor[OF sp] in auto)
  next
    case (Scope k)
    with run Some have io: "in_order (\<lambda>i. if type (descs ! i) = Scoped
                  then getService_static sp ty descs (Scope k) (Scope k) i
                  else getService_static sp ty descs Root (Scope k) i) [0..<length descs] s = (r, s')"
      by (simp add: ScopedServiceProvider_getServices_def)
    show ?thesis
      by (rule in_order_no_error[OF _ io]) (use getService_static_no_oor[OF sp] in \<open>auto split: if_splits\<close>)
  qed
qed

lemma provider_never_out_of_range:
  assumes "well_formed fs"
  shows "never_out_of_range (provider n fs)"
proof (induction n)
  case 0
  show ?case by (simp add: never_out_of_range_def)
next
  case (Suc n)
  show ?case
    unfolding never_out_of_range_def
    using dispatch_getService_no_oor[OF assms Suc] dispatch_getServices_no_oor[OF Suc]
    by simp
qed

lemma collect_well_formed: "length rs < 2 ^ 64 \<Longrightarrow> well_formed (collect rs)"
  unfolding well_formed_def
proof (intro allI impI)
  fix ty ds
  assume "length rs < 2 ^ 64" and "collect rs ty = Some ds"
  from collect_nonempty[OF this(2)] this(1) show "ds \<noteq> [] \<and> length ds \<le> 2 ^ 64" by simp
qed

lemma xyz_I: "collect xyz_registrations (TypeId ''I'') =
  Some [\<lparr>create = ServiceFactory ''X'' [], convert = ToReference, type = Singleton\<rparr>,
        \<lparr>create = ServiceFactory ''Y'' [], convert = ToReference, type = Singleton\<rparr>,
        \<lparr>create = ServiceFactory ''Z'' [], convert = ToReference, type = Singleton\<rparr>]"
  by (simp add: xyz_registrations_def collect_def addSingleton_def addService_def emplace_back_description_def)

lemma xyz_J: "collect xyz_registrations (TypeId ''J'') = None"
  by (simp add: xyz_registrations_def collect_def addSingleton_def addService_def emplace_back_description_def)

text \<open>
  Claim C9. Every key of a built collection holds a non-empty list: each registration
  appends to the list it has just made sure exists. Hence \<^verbatim>\<open>size() - 1\<close> does
  not wrap, the index it yields is inside the list, and no lookup on any provider, for
  any key, ends in the \<^verbatim>\<open>std::out_of_range\<close> of \<^verbatim>\<open>at(index)\<close>.
\<close>

theorem registered_keys_nonempty:
  assumes "length rs < 2 ^ 64" and "collect rs ty = Some descs"
  shows "descs \<noteq> []
       \<and> size_minus_one descs = length descs - 1
       \<and> size_minus_one descs < length descs
       \<and> (\<forall>n p ty' s. fst (getService n (collect rs) p ty' s) \<noteq> Inl OutOfRange)
       \<and> (\<forall>n p ty' s. fst (getServices n (collect rs) p ty' s) \<noteq> Inl OutOfRange)"
proof -
  have wf: "well_formed (collect rs)" by (rule collect_well_formed[OF assms(1)])
  from wf assms(2) have ne: "descs \<noteq> []" and le: "length descs \<le> 2 ^ 64"
    by (auto simp: well_formed_def)
  have a: "fst (getService n (collect rs) p ty' s) \<noteq> Inl OutOfRange" for n p ty' s
    using dispatch_getService_no_oor[OF wf provider_never_out_of_range[OF wf, of n], of p ty' s]
    by (cases "getService n (collect rs) p ty' s") (simp add: getService_def)
  have b: "fst (getServices n (collect rs) p ty' s) \<noteq> Inl OutOfRange" for n p ty' s
    using dispatch_getServices_no_oor[OF provider_never_out_of_range[OF wf, of n], of "collect rs" p ty' s]
    by (cases "getServices n (collect rs) p ty' s") (simp add: getServices_def)
  from ne le a b show ?thesis
    by (simp add: size_minus_one_eq size_minus_one_less)
qed

theorem registered_keys_nonempty_witness:
  "length xyz_registrations < 2 ^ 64
   \<and> (\<exists>descs. collect xyz_registrations (TypeId ''I'') = Some descs
        \<and> size_minus_one descs = 2 \<and> size_minus_one descs < length descs)
   \<and> fst (getService 1 (collect xyz_registrations) Root (TypeId ''I'') build) \<noteq> Inl OutOfRange"
proof -
  have len: "length xyz_registrations < 2 ^ 64" by (simp add: xyz_registrations_def)
  from registered_keys_nonempty[OF len xyz_I] len xyz_I show ?thesis by simp
qed

subsection \<open>Unregistered keys\<close>

lemma getService_unregistered: "fs ty = None \<Longrightarrow> getService n fs p ty s = (Inr NoValue, s)"
  by (cases p) (simp_all add: getService_def ServiceProvider_getService_def
      ScopedServiceProvider_getService_def)

lemma getServices_unregistered: "fs ty = None \<Longrightarrow> getServices n fs p ty s = (Inr [], s)"
  by (cases p) (simp_all add: getServices_def ServiceProvider_getServices_def
      ScopedServiceProvider_getServices_def)

text \<open>
  Claim C5. For a key without registration the single lookup returns an empty
  \<^verbatim>\<open>std::any\<close> and raises nothing, the multi lookup returns an empty vector, and
  \<^verbatim>\<open>getRequiredService\<close> raises a \<^verbatim>\<open>std::logic_error\<close> whose message
  starts with the name of the missing type. The state of the provider is unchanged.
\<close>

theorem unregistered_lookup:
  assumes "fs ty = None" and "fs (TypeId T) = None"
  shows "getService n fs p ty s = (Inr NoValue, s)
       \<and> getServices n fs p ty s = (Inr [], s)
       \<and> getRequiredService n fs p T s =
           (Inl (LogicError (T @ '' has not been registered as a singleton or scoped service.'')), s)"
  using assms
  by (simp add: getService_unregistered getServices_unregistered getRequiredService_def getService_T_def)

theorem unregistered_lookup_witness:
  "getService 1 (collect xyz_registrations) (Scope 0) (TypeId ''J'') build = (Inr NoValue, build)
   \<and> getServices 1 (collect xyz_registrations) (Scope 0) (TypeId ''J'') build = (Inr [], build)
   \<and> getRequiredService 1 (collect xyz_registrations) (Scope 0) ''J'' build =
       (Inl (LogicError ''J has not been registered as a singleton or scoped service.''), build)"
  using unregistered_lookup[of "collect xyz_registrations" "TypeId ''J''" "''J''" 1 "Scope 0" build] xyz_J
  by simp

subsection \<open>Observing the steps on a table\<close>

lemma members_update_members [simp]:
  "members (update_members this f s) q = (if q = this then f (members s this) else members s q)"
  by (cases this; cases q) auto

lemma update_members_fields [simp]:
  "created (update_members this f s) = created s"
  "next_scope (update_members this f s) = next_scope s"
  "next_address (update_members this f s) = next_address s"
  by (cases this; simp)+

lemma update_members_scopes: "Scope k \<noteq> this \<Longrightarrow> scopes (update_members this f s) k = scopes s k"
  by (cases this) auto

lemma slot_at_emplace_instances:
  "slot_at (emplace_instances this key n s) q key' i =
     (if q = this \<and> key' = key \<and> instances (members s this) key = None
      then (if i < n then Some new_slot else None)
      else slot_at s q key' i)"
  by (auto simp: slot_at_def emplace_instances_def split: option.splits)

lemma slot_at_no_table: "instances (members s this) key = None \<Longrightarrow> slot_at s this key i = None"
  by (simp add: slot_at_def)

lemma emplace_instances_fields [simp]:
  "created (emplace_instances this key n s) = created s"
  "next_scope (emplace_instances this key n s) = next_scope s"
  "next_address (emplace_instances this key n s) = next_address s"
  "initializationOrder (members (emplace_instances this key n s) q) = initializationOrder (members s q)"
  by (auto simp: emplace_instances_def split: option.splits)

lemma emplace_instances_scopes:
  "Scope k \<noteq> this \<Longrightarrow> scopes (emplace_instances this key n s) k = scopes s k"
  by (auto simp: emplace_instances_def update_members_scopes split: option.splits)

lemma slot_at_write_slot:
  "slot_at (write_slot this key i c s) q key' j =
     (if q = this \<and> key' = key \<and> j = i \<and> slot_at s this key i \<noteq> None
      then Some c
      else slot_at s q key' j)"
  by (auto simp: slot_at_def write_slot_def split: option.splits)

lemma write_slot_fields [simp]:
  "created (write_slot this key i c s) = created s"
  "next_scope (write_slot this key i c s) = next_scope s"
  "next_address (write_slot this key i c s) = next_address s"
  "initializationOrder (members (write_slot this key i c s) q) = initializationOrder (members s q)"
  by (auto simp: write_slot_def split: option.splits)

lemma write_slot_scopes:
  "Scope k \<noteq> this \<Longrightarrow> scopes (write_slot this key i c s) k = scopes s k"
  by (auto simp: write_slot_def update_members_scopes split: option.splits)

lemma slot_at_emplace_back_order [simp]:
  "slot_at (emplace_back_order this a s) q key i = slot_at s q key i"
  by (auto simp: slot_at_def emplace_back_order_def)

lemma emplace_back_order_fields [simp]:
  "created (emplace_back_order this a s) = created s"
  "next_scope (emplace_back_order this a s) = next_scope s"
  "next_address (emplace_back_order this a s) = next_address s"
  "initializationOrder (members (emplace_back_order this a s) q) =
     (if q = this then initializationOrder (members s q) @ [a] else initializationOrder (members s q))"
  by (auto simp: emplace_back_order_def)

lemma emplace_back_order_scopes:
  "Scope k \<noteq> this \<Longrightarrow> scopes (emplace_back_order this a s) k = scopes s k"
  by (auto simp: emplace_back_order_def update_members_scopes)

lemma members_record_creation [simp]:
  "members (record_creation this key i p t s) q = members s q"
  by (cases q) (auto simp: record_creation_def)

lemma slot_at_record_creation [simp]:
  "slot_at (record_creation this key i p t s) q key' j = slot_at s q key' j"
  by (simp add: slot_at_def)

lemma record_creation_fields [simp]:
  "created (record_creation this key i p t s) =
     created s @ [\<lparr>c_owner = this, c_key = key, c_index = i, c_provider = p, c_type = t\<rparr>]"
  "next_scope (record_creation this key i p t s) = next_scope s"
  "next_address (record_creation this key i p t s) = next_address s"
  "scopes (record_creation this key i p t s) = scopes s"
  by (auto simp: record_creation_def)

lemma members_next_address_update [simp]:
  "members (s\<lparr>next_address := n\<rparr>) q = members s q"
  by (cases q) auto

lemma slot_at_next_address_update [simp]:
  "slot_at (s\<lparr>next_address := n\<rparr>) q key i = slot_at s q key i"
  by (simp add: slot_at_def)

lemma claimed_next_address_update [simp]:
  "claimed (s\<lparr>next_address := n\<rparr>) k = claimed s k"
  by (simp add: claimed_def split: prod.splits)

lemma slot_at_emplace_instances_old:
  assumes "slot_at s q key' i = Some c"
  shows "slot_at (emplace_instances this key n s) q key' i = Some c"
proof (cases "q = this \<and> key' = key \<and> instances (members s this) key = None")
  case True
  with assms show ?thesis by (simp add: slot_at_no_table)
next
  case False
  then have "slot_at (emplace_instances this key n s) q key' i = slot_at s q key' i"
    unfolding slot_at_emplace_instances by (simp only: if_False)
  with assms show ?thesis by simp
qed

lemma slot_at_emplace_instances_future:
  "slot_at (emplace_instances this key n s) q key' i = Some c \<Longrightarrow> serviceFuture c = Some v
     \<Longrightarrow> slot_at s q key' i = Some c"
  by (auto simp: slot_at_emplace_instances new_slot_def split: if_splits)

lemma stored_emplace_instances: "stored (emplace_instances this key n s) = stored s"
proof (intro set_eqI iffI)
  fix v
  assume "v \<in> stored (emplace_instances this key n s)"
  then consider this' key' i c where
      "slot_at (emplace_instances this key n s) this' key' i = Some c" "serviceFuture c = Some v"
    | q where "v \<in> set (initializationOrder (members s q))"
    unfolding stored_def by auto
  then show "v \<in> stored s"
  proof cases
    case 1
    from slot_at_emplace_instances_future[OF 1] 1(2) show ?thesis unfolding stored_def by blast
  next
    case 2
    then show ?thesis unfolding stored_def by blast
  qed
next
  fix v
  assume "v \<in> stored s"
  then consider this' key' i c where "slot_at s this' key' i = Some c" "serviceFuture c = Some v"
    | q where "v \<in> set (initializationOrder (members s q))"
    unfolding stored_def by auto
  then show "v \<in> stored (emplace_instances this key n s)"
  proof cases
    case 1
    from slot_at_emplace_instances_old[OF 1(1)] 1(2) show ?thesis unfolding stored_def by blast
  next
    case 2
    then show ?thesis unfolding stored_def by auto
  qed
qed

lemma stored_record_creation [simp]: "stored (record_creation this key i p t s) = stored s"
  by (simp add: stored_def)

lemma stored_next_address_update [simp]: "stored (s\<lparr>next_address := n\<rparr>) = stored s"
  by (simp add: stored_def)

lemma stored_write_slot:
  "v \<in> stored (write_slot this key i c s) \<Longrightarrow> v \<in> stored s \<or> serviceFuture c = Some v"
  by (auto simp: stored_def slot_at_write_slot split: if_splits)

lemma stored_emplace_back_order:
  "v \<in> stored (emplace_back_order this a s) \<Longrightarrow> v \<in> stored s \<or> v = a"
  by (auto simp: stored_def split: if_splits)

lemma stored_slot: "slot_at s this key i = Some c \<Longrightarrow> serviceFuture c = Some v \<Longrightarrow> v \<in> stored s"
  by (auto simp: stored_def)

subsection \<open>Allocated objects\<close>

lemma allocated_Existing [simp]: "allocated s (Existing T n)"
  by (simp add: allocated_def)

lemma allocated_Object [simp]: "allocated s (Object a T args) = (a < next_address s)"
  by (simp add: allocated_def)

lemma made_since_Existing [simp]: "made_since s (Existing T n)"
  by (simp add: made_since_def)

lemma made_since_Object [simp]: "made_since s (Object a T args) = (next_address s \<le> a)"
  by (simp add: made_since_def)

lemma allocated_mono: "next_address s \<le> next_address s' \<Longrightarrow> allocated s obj \<Longrightarrow> allocated s' obj"
  by (cases obj) simp_all

lemma made_since_mono: "next_address s \<le> next_address s' \<Longrightarrow> made_since s' obj \<Longrightarrow> made_since s obj"
  by (cases obj) simp_all

lemma allocated_same: "next_address s = next_address s' \<Longrightarrow> allocated s obj = allocated s' obj"
  by (cases obj) simp_all

lemma made_since_same: "next_address s = next_address s' \<Longrightarrow> made_since s obj = made_since s' obj"
  by (cases obj) simp_all

lemma allocated_steps [simp]:
  "allocated (emplace_instances this key n s) obj = allocated s obj"
  "allocated (write_slot this key i c s) obj = allocated s obj"
  "allocated (emplace_back_order this a s) obj = allocated s obj"
  "allocated (record_creation this key i p t s) obj = allocated s obj"
  by (cases obj; simp)+

lemma made_since_steps [simp]:
  "made_since (emplace_instances this key n s) obj = made_since s obj"
  "made_since (write_slot this key i c s) obj = made_since s obj"
  "made_since (emplace_back_order this a s) obj = made_since s obj"
  "made_since (record_creation this key i p t s) obj = made_since s obj"
  by (cases obj; simp)+

lemma allocated_next_address: "allocated s obj \<Longrightarrow> allocated (s\<lparr>next_address := Suc (next_address s)\<rparr>) obj"
  by (cases obj) simp_all

lemma made_since_not_allocated:
  "made_since s (Object a T args) \<Longrightarrow> \<not> allocated s (Object a T args)"
  by simp

subsection \<open>The evolution of the state is a preorder\<close>

lemma frozen_refl: "frozen s s"
  by (simp add: frozen_def)

lemma frozen_trans: "frozen s s' \<Longrightarrow> frozen s' s'' \<Longrightarrow> frozen s s''"
  unfolding frozen_def by blast

lemma frozen_claimed: "frozen s s' \<Longrightarrow> claimed s k \<Longrightarrow> claimed s' k"
  unfolding frozen_def claimed_def by (auto split: prod.splits option.splits)

lemma evolves_refl: "evolves p s s"
  by (simp add: evolves_def frozen_refl cached_def)

lemma evolves_frozen: "evolves p s s' \<Longrightarrow> frozen s s'"
  by (simp add: evolves_def)

lemma evolves_trans:
  assumes "evolves p s s'" and "evolves p s' s''"
  shows "evolves p s s''"
proof -
  from assms(1) obtain n1 where n1: "created s' = created s @ n1"
    "\<forall>e \<in> set n1. c_provider e = p \<and> (c_owner e = Root \<or> c_owner e = p)"
    "distinct (map key_of (cached n1))"
    "\<forall>e \<in> set (cached n1). \<not> claimed s (key_of e) \<and> claimed s' (key_of e)"
    unfolding evolves_def by blast
  from assms(2) obtain n2 where n2: "created s'' = created s' @ n2"
    "\<forall>e \<in> set n2. c_provider e = p \<and> (c_owner e = Root \<or> c_owner e = p)"
    "distinct (map key_of (cached n2))"
    "\<forall>e \<in> set (cached n2). \<not> claimed s' (key_of e) \<and> claimed s'' (key_of e)"
    unfolding evolves_def by blast
  have f1: "frozen s s'" and f2: "frozen s' s''" using assms by (simp_all add: evolves_def)
  have c: "created s'' = created s @ (n1 @ n2)" using n1(1) n2(1) by simp
  have o: "\<forall>e \<in> set (n1 @ n2). c_provider e = p \<and> (c_owner e = Root \<or> c_owner e = p)"
    using n1(2) n2(2) by auto
  have disj: "set (map key_of (cached n1)) \<inter> set (map key_of (cached n2)) = {}"
    using n1(4) n2(4) by (auto simp: image_iff)
  have d: "distinct (map key_of (cached (n1 @ n2)))"
    using n1(3) n2(3) disj by (simp add: cached_def)
  have cl: "\<forall>e \<in> set (cached (n1 @ n2)). \<not> claimed s (key_of e) \<and> claimed s'' (key_of e)"
  proof
    fix e
    assume "e \<in> set (cached (n1 @ n2))"
    then consider "e \<in> set (cached n1)" | "e \<in> set (cached n2)"
      by (auto simp: cached_def)
    then show "\<not> claimed s (key_of e) \<and> claimed s'' (key_of e)"
    proof cases
      case 1
      with n1(4) frozen_claimed[OF f2] show ?thesis by blast
    next
      case 2
      with n2(4) frozen_claimed[OF f1] show ?thesis by blast
    qed
  qed
  have ord: "\<forall>q. \<exists>more. initializationOrder (members s'' q) = initializationOrder (members s q) @ more"
  proof
    fix q
    from assms(1) obtain m1 where "initializationOrder (members s' q) = initializationOrder (members s q) @ m1"
      unfolding evolves_def by blast
    moreover from assms(2) obtain m2 where "initializationOrder (members s'' q) = initializationOrder (members s' q) @ m2"
      unfolding evolves_def by blast
    ultimately show "\<exists>more. initializationOrder (members s'' q) = initializationOrder (members s q) @ more"
      by simp
  qed
  have rest: "(\<forall>k. Scope k \<noteq> p \<longrightarrow> scopes s'' k = scopes s k)" "next_scope s'' = next_scope s"
    "next_address s \<le> next_address s''"
    using assms by (auto simp: evolves_def)
  have st: "\<forall>v \<in> stored s''. v \<in> stored s \<or> (\<exists>obj. v = SharedPtr obj \<and> made_since s obj)"
  proof
    fix v
    assume "v \<in> stored s''"
    with assms(2) consider "v \<in> stored s'" | obj where "v = SharedPtr obj" "made_since s' obj"
      unfolding evolves_def by blast
    then show "v \<in> stored s \<or> (\<exists>obj. v = SharedPtr obj \<and> made_since s obj)"
    proof cases
      case 1
      with assms(1) show ?thesis unfolding evolves_def by blast
    next
      case 2
      moreover from assms(1) have "next_address s \<le> next_address s'" by (simp add: evolves_def)
      ultimately show ?thesis using made_since_mono by blast
    qed
  qed
  show ?thesis
    unfolding evolves_def
    using frozen_trans[OF f1 f2] c o d cl rest ord st by blast
qed


lemma claimed_write_slot:
  "claimed (write_slot this key i c s) k =
     (if k = (this, key, i) \<and> slot_at s this key i \<noteq> None then initialized c else claimed s k)"
  by (cases k) (auto simp: claimed_def slot_at_write_slot split: option.splits)

lemma claimed_emplace_back_order [simp]: "claimed (emplace_back_order this a s) k = claimed s k"
  by (cases k) (simp add: claimed_def)

lemma claimed_record_creation [simp]: "claimed (record_creation this key i p t s) k = claimed s k"
  by (cases k) (simp add: claimed_def)

lemma claimed_emplace_instances [simp]: "claimed (emplace_instances this key n s) k = claimed s k"
  by (cases k) (auto simp: claimed_def slot_at_emplace_instances slot_at_no_table new_slot_def split: option.splits)

subsection \<open>Each step of a resolution evolves the state\<close>

lemma in_order_preorder:
  assumes refl: "\<And>s. R s s" and trans: "\<And>a b c. R a b \<Longrightarrow> R b c \<Longrightarrow> R a c"
    and step: "\<And>x s r s'. x \<in> set xs \<Longrightarrow> f x s = (r, s') \<Longrightarrow> R s s'"
    and run: "in_order f xs s = (r, s')"
  shows "R s s'"
  using step run
proof (induction xs arbitrary: s r s')
  case Nil
  then show ?case using refl by auto
next
  case (Cons x xs)
  obtain r1 s1 where f: "f x s = (r1, s1)" by (cases "f x s")
  have hd: "R s s1" using Cons.prems(1)[OF _ f] by simp
  show ?case
  proof (cases r1)
    case (Inl e)
    with f Cons.prems(2) hd show ?thesis by auto
  next
    case (Inr y)
    obtain r2 s2 where rest: "in_order f xs s1 = (r2, s2)" by (cases "in_order f xs s1")
    have "R s1 s2" using Cons.IH[OF _ rest] Cons.prems(1) by auto
    with hd have "R s s2" by (rule trans)
    with f Inr rest Cons.prems(2) show ?thesis by (auto split: sum.splits)
  qed
qed

lemma in_order_evolves:
  assumes "\<And>x s r s'. x \<in> set xs \<Longrightarrow> f x s = (r, s') \<Longrightarrow> evolves p s s'"
    and "in_order f xs s = (r, s')"
  shows "evolves p s s'"
  by (rule in_order_preorder[where R = "evolves p", OF evolves_refl evolves_trans assms])

lemma ServiceFactory_getService_evolves:
  assumes "provider_evolves sp" and "ServiceFactory_getService sp p prm s = (r, s')"
  shows "evolves p s s'"
  using assms(2)
  by (cases rule: ServiceFactory_getService_cases)
    (use assms(1) in \<open>unfold provider_evolves_def, blast\<close>)+

lemma next_address_evolves: "evolves p s (s\<lparr>next_address := Suc (next_address s)\<rparr>)"
  by (simp add: evolves_def frozen_def cached_def)

lemma call_create_evolves:
  assumes "provider_evolves sp" and "call_create f sp p s = (r, s')"
  shows "evolves p s s'"
  using assms(2)
proof (cases rule: call_create_cases)
  case (failed e T ps)
  from in_order_evolves[OF _ failed(2)] ServiceFactory_getService_evolves[OF assms(1)]
  show ?thesis by blast
next
  case (created args s1 T ps)
  from in_order_evolves[OF _ created(2)] ServiceFactory_getService_evolves[OF assms(1)]
  have "evolves p s s1" by blast
  from evolves_trans[OF this next_address_evolves] created(4) show ?thesis by simp
next
  case (existing T n)
  then show ?thesis by (simp add: evolves_refl)
qed

lemma call_create_address:
  assumes "provider_evolves sp" and "call_create f sp p s = (Inr a, s')"
  shows "\<exists>obj. a = SharedPtr obj \<and> made_since s obj"
  using assms(2)
proof (cases rule: call_create_cases)
  case (created args s1 T ps)
  from in_order_evolves[OF _ created(2)] ServiceFactory_getService_evolves[OF assms(1)]
  have "evolves p s s1" by blast
  then have "next_address s \<le> next_address s1" by (simp add: evolves_def)
  with created(3) show ?thesis by simp
qed simp_all

lemma emplace_instances_evolves:
  assumes "this = Root \<or> this = p"
  shows "evolves p s (emplace_instances this key n s)"
  unfolding evolves_def
proof (intro conjI)
  show "frozen s (emplace_instances this key n s)"
    by (auto simp: frozen_def slot_at_emplace_instances slot_at_no_table)
  show "\<exists>new. created (emplace_instances this key n s) = created s @ new
           \<and> (\<forall>e \<in> set new. c_provider e = p \<and> (c_owner e = Root \<or> c_owner e = p))
           \<and> distinct (map key_of (cached new))
           \<and> (\<forall>e \<in> set (cached new). \<not> claimed s (key_of e)
                \<and> claimed (emplace_instances this key n s) (key_of e))"
    by (rule exI[of _ "[]"]) (simp add: cached_def)
  show "\<forall>k. Scope k \<noteq> p \<longrightarrow> scopes (emplace_instances this key n s) k = scopes s k"
    using assms by (auto simp: emplace_instances_scopes)
qed (simp_all add: stored_emplace_instances)

lemma record_transient_evolves:
  assumes "this = Root \<or> this = p"
  shows "evolves p s (record_creation this key i p Transient s)"
  unfolding evolves_def
proof (intro conjI)
  show "\<exists>new. created (record_creation this key i p Transient s) = created s @ new
           \<and> (\<forall>e \<in> set new. c_provider e = p \<and> (c_owner e = Root \<or> c_owner e = p))
           \<and> distinct (map key_of (cached new))
           \<and> (\<forall>e \<in> set (cached new). \<not> claimed s (key_of e)
                \<and> claimed (record_creation this key i p Transient s) (key_of e))"
    by (rule exI[of _ "[\<lparr>c_owner = this, c_key = key, c_index = i, c_provider = p, c_type = Transient\<rparr>]"])
      (use assms in \<open>simp add: cached_def\<close>)
qed (simp_all add: frozen_def)

lemma claim_evolves:
  assumes "this = Root \<or> this = p" and "slot_at s this key i = Some c" and "\<not> initialized c"
    and "t \<noteq> Transient"
  shows "evolves p s (record_creation this key i p t (write_slot this key i (c\<lparr>initialized := True\<rparr>) s))"
  unfolding evolves_def
proof (intro conjI)
  let ?s' = "record_creation this key i p t (write_slot this key i (c\<lparr>initialized := True\<rparr>) s)"
  show "frozen s ?s'"
    using assms(2,3) by (auto simp: frozen_def slot_at_write_slot)
  show "\<exists>new. created ?s' = created s @ new
           \<and> (\<forall>e \<in> set new. c_provider e = p \<and> (c_owner e = Root \<or> c_owner e = p))
           \<and> distinct (map key_of (cached new))
           \<and> (\<forall>e \<in> set (cached new). \<not> claimed s (key_of e) \<and> claimed ?s' (key_of e))"
    by (rule exI[of _ "[\<lparr>c_owner = this, c_key = key, c_index = i, c_provider = p, c_type = t\<rparr>]"])
      (use assms in \<open>simp add: cached_def key_of_def claimed_write_slot, simp add: claimed_def\<close>)
  show "\<forall>k. Scope k \<noteq> p \<longrightarrow> scopes ?s' k = scopes s k"
    using assms(1) by (auto simp: write_slot_scopes)
  show "\<forall>v \<in> stored ?s'. v \<in> stored s \<or> (\<exists>obj. v = SharedPtr obj \<and> made_since s obj)"
    using stored_slot[OF assms(2)] by (auto dest!: stored_write_slot)
qed simp_all

lemma publish_evolves:
  assumes ev: "evolves p s1 s3" and unclaimed: "\<not> claimed s1 (this, key, i)"
    and own: "this = Root \<or> this = p"
    and new: "\<exists>obj. a = SharedPtr obj \<and> made_since s1 obj"
  shows "evolves p s1
           (emplace_back_order this a (write_slot this key i \<lparr>initialized = True, serviceFuture = Some a\<rparr> s3))"
proof -
  let ?s5 = "emplace_back_order this a (write_slot this key i \<lparr>initialized = True, serviceFuture = Some a\<rparr> s3)"
  from ev obtain es where es: "created s3 = created s1 @ es"
    "\<forall>e \<in> set es. c_provider e = p \<and> (c_owner e = Root \<or> c_owner e = p)"
    "distinct (map key_of (cached es))"
    "\<forall>e \<in> set (cached es). \<not> claimed s1 (key_of e) \<and> claimed s3 (key_of e)"
    unfolding evolves_def by blast
  have fr: "frozen s1 s3" using ev by (simp add: evolves_def)
  have keep: "claimed s3 k \<Longrightarrow> claimed ?s5 k" for k
    by (cases k) (auto simp: claimed_def slot_at_write_slot split: option.splits)
  have 1: "frozen s1 ?s5"
    unfolding frozen_def
  proof (intro allI impI)
    fix q key' j c
    assume a: "slot_at s1 q key' j = Some c \<and> initialized c"
    with unclaimed have ne: "(q, key', j) \<noteq> (this, key, i)"
      by (auto simp: claimed_def)
    from a fr have "slot_at s3 q key' j = Some c" by (auto simp: frozen_def)
    with ne show "slot_at ?s5 q key' j = Some c" by (auto simp: slot_at_write_slot)
  qed
  have 2: "\<exists>new. created ?s5 = created s1 @ new
           \<and> (\<forall>e \<in> set new. c_provider e = p \<and> (c_owner e = Root \<or> c_owner e = p))
           \<and> distinct (map key_of (cached new))
           \<and> (\<forall>e \<in> set (cached new). \<not> claimed s1 (key_of e) \<and> claimed ?s5 (key_of e))"
    by (rule exI[of _ es]) (use es keep in auto)
  have 3: "\<forall>k. Scope k \<noteq> p \<longrightarrow> scopes ?s5 k = scopes s1 k"
    using ev own by (auto simp: evolves_def emplace_back_order_scopes write_slot_scopes)
  have 4: "next_scope ?s5 = next_scope s1" "next_address s1 \<le> next_address ?s5"
    using ev by (auto simp: evolves_def)
  have 5: "\<forall>q. \<exists>more. initializationOrder (members ?s5 q) = initializationOrder (members s1 q) @ more"
  proof
    fix q
    from ev obtain m where "initializationOrder (members s3 q) = initializationOrder (members s1 q) @ m"
      unfolding evolves_def by blast
    then show "\<exists>more. initializationOrder (members ?s5 q) = initializationOrder (members s1 q) @ more"
      by (cases "q = this") auto
  qed
  have 6: "\<forall>v \<in> stored ?s5. v \<in> stored s1 \<or> (\<exists>obj. v = SharedPtr obj \<and> made_since s1 obj)"
  proof
    fix v
    assume "v \<in> stored ?s5"
    then have "v \<in> stored s3 \<or> v = a"
      by (auto dest!: stored_emplace_back_order stored_write_slot)
    with ev new show "v \<in> stored s1 \<or> (\<exists>obj. v = SharedPtr obj \<and> made_since s1 obj)"
      unfolding evolves_def by blast
  qed
  show ?thesis unfolding evolves_def using 1 2 3 4 5 6 by blast
qed

lemma getService_static_evolves:
  assumes sp: "provider_evolves sp" and own: "this = Root \<or> this = p"
    and run: "getService_static sp key descs this p index s = (r, s')"
  shows "evolves p s s'"
  using run
proof (cases rule: getService_static_cases)
  case out_of_range
  then show ?thesis by (simp add: evolves_refl)
next
  case undefined
  then show ?thesis by (simp add: emplace_instances_evolves[OF own])
next
  case (failed c e)
  note e1 = emplace_instances_evolves[OF own, of s key "length descs"]
  note e2 = claim_evolves[OF own failed(3,4,2)]
  note e3 = call_create_evolves[OF sp failed(5)]
  from evolves_trans[OF e1 evolves_trans[OF e2 e3]] show ?thesis .
next
  case (constructed c a s3)
  note e1 = emplace_instances_evolves[OF own, of s key "length descs"]
  note e2 = claim_evolves[OF own constructed(3,4,2)]
  note e3 = call_create_evolves[OF sp constructed(5)]
  have "\<not> claimed (emplace_instances this key (length descs) s) (this, key, index)"
    using constructed(3,4) by (simp add: claimed_def del: claimed_emplace_instances)
  moreover have "\<exists>obj. a = SharedPtr obj
      \<and> made_since (emplace_instances this key (length descs) s) obj"
  proof -
    from call_create_address[OF sp constructed(5)] obtain obj where
      obj: "a = SharedPtr obj"
      and m: "made_since (record_creation this key index p (type (descs ! index))
           (write_slot this key index (c\<lparr>initialized := True\<rparr>)
             (emplace_instances this key (length descs) s))) obj"
      by blast
    from m have "made_since (emplace_instances this key (length descs) s) obj"
      by (rule made_since_mono[rotated]) simp
    with obj show ?thesis by blast
  qed
  ultimately have e4: "evolves p (emplace_instances this key (length descs) s) s'"
    using publish_evolves[OF evolves_trans[OF e2 e3] _ own, where a = a] constructed(6) by simp
  from evolves_trans[OF e1 e4] show ?thesis .
next
  case (deadlock c)
  then show ?thesis by (simp add: emplace_instances_evolves[OF own])
next
  case (cached c a)
  then show ?thesis by (simp add: emplace_instances_evolves[OF own])
next
  case (transient_failed e)
  from transient_failed(2,3) call_create_evolves[OF sp]
  have e2: "evolves p (record_creation this key index p Transient s) s'" by simp
  from evolves_trans[OF record_transient_evolves[OF own] e2] show ?thesis .
next
  case (transient a)
  from transient(2,3) call_create_evolves[OF sp]
  have e2: "evolves p (record_creation this key index p Transient s) s'" by simp
  from evolves_trans[OF record_transient_evolves[OF own] e2] show ?thesis .
qed

lemma dispatch_getService_evolves:
  assumes sp: "provider_evolves sp" and run: "dispatch_getService sp fs p ty s = (r, s')"
  shows "evolves p s s'"
proof (cases "fs ty")
  case None
  with run show ?thesis
    by (cases p) (auto simp: ServiceProvider_getService_def ScopedServiceProvider_getService_def evolves_refl)
next
  case (Some descs)
  show ?thesis
  proof (cases p)
    case Root
    with run Some show ?thesis
      by (auto simp: ServiceProvider_getService_def intro: getService_static_evolves[OF sp])
  next
    case (Scope k)
    with run Some show ?thesis
      by (auto simp: ScopedServiceProvider_getService_def evolves_refl
          intro: getService_static_evolves[OF sp] split: list.splits if_splits)
  qed
qed

lemma dispatch_getServices_evolves:
  assumes sp: "provider_evolves sp" and run: "dispatch_getServices sp fs p ty s = (r, s')"
  shows "evolves p s s'"
proof (cases "fs ty")
  case None
  with run show ?thesis
    by (cases p) (auto simp: ServiceProvider_getServices_def ScopedServiceProvider_getServices_def evolves_refl)
next
  case (Some descs)
  show ?thesis
  proof (cases p)
    case Root
    with run Some have io: "in_order (getService_static sp ty descs Root Root) [0..<length descs] s = (r, s')"
      by (simp add: ServiceProvider_getServices_def)
    show ?thesis unfolding Root
      by (rule in_order_evolves[OF _ io]) (auto intro: getService_static_evolves[OF sp])
  next
    case (Scope k)
    with run Some have io: "in_order (\<lambda>i. if type (descs ! i) = Scoped
                  then getService_static sp ty descs (Scope k) (Scope k) i
                  else getService_static sp ty descs Root (Scope k) i) [0..<length descs] s = (r, s')"
      by (simp add: ScopedServiceProvider_getServices_def)
    show ?thesis unfolding Scope
      by (rule in_order_evolves[OF _ io]) (auto intro: getService_static_evolves[OF sp] split: if_splits)
  qed
qed

lemma provider_evolves: "provider_evolves (provider n fs)"
proof (induction n)
  case 0
  show ?case by (simp add: provider_evolves_def evolves_refl)
next
  case (Suc n)
  show ?case
    unfolding provider_evolves_def
    using dispatch_getService_evolves[OF Suc] dispatch_getServices_evolves[OF Suc]
    by simp
qed

lemma getService_evolves: "getService n fs p ty s = (r, s') \<Longrightarrow> evolves p s s'"
  unfolding getService_def by (rule dispatch_getService_evolves[OF provider_evolves])

lemma getServices_evolves: "getServices n fs p ty s = (r, s') \<Longrightarrow> evolves p s s'"
  unfolding getServices_def by (rule dispatch_getServices_evolves[OF provider_evolves])

subsection \<open>Reachable states\<close>

lemma createScope_fields:
  "createScope s = (p, s') \<Longrightarrow> p = Scope (next_scope s) \<and> created s' = created s
     \<and> next_scope s' = Suc (next_scope s) \<and> next_address s' = next_address s \<and> root s' = root s
     \<and> scopes s' = (scopes s)(next_scope s := empty_members)"
  by (auto simp: createScope_def)

lemma slot_at_empty_members: "members s q = empty_members \<Longrightarrow> slot_at s q key i = None"
  by (simp add: slot_at_def empty_members_def)

lemma createScope_slot_at:
  assumes "createScope s = (p, s')" and "fresh_scopes s"
  shows "slot_at s' q key i = slot_at s q key i"
proof -
  from assms(1) have f: "root s' = root s" "scopes s' = (scopes s)(next_scope s := empty_members)"
    by (auto dest: createScope_fields)
  from assms(2) have e: "scopes s (next_scope s) = empty_members" by (simp add: fresh_scopes_def)
  have "members s' q = members s q" using f e by (cases q) auto
  then show ?thesis by (simp add: slot_at_def)
qed

lemma createScope_frozen: "createScope s = (p, s') \<Longrightarrow> fresh_scopes s \<Longrightarrow> frozen s s'"
  by (simp add: frozen_def createScope_slot_at)

lemma createScope_claimed: "createScope s = (p, s') \<Longrightarrow> fresh_scopes s \<Longrightarrow> claimed s' k = claimed s k"
  by (cases k) (simp add: claimed_def createScope_slot_at)

lemma createScope_fresh_scopes: "createScope s = (p, s') \<Longrightarrow> fresh_scopes s \<Longrightarrow> fresh_scopes s'"
  by (auto simp: fresh_scopes_def createScope_def)

lemma createScope_once: "createScope s = (p, s') \<Longrightarrow> once s \<Longrightarrow> once s'"
  unfolding once_def
  using createScope_fresh_scopes[of s p s'] createScope_claimed[of s p s'] createScope_fields[of s p s']
  by auto

lemma evolves_fresh_scopes:
  assumes "evolves p s s'" and "provider_exists s p" and "fresh_scopes s"
  shows "fresh_scopes s'"
  unfolding fresh_scopes_def
proof (intro allI impI)
  fix k
  assume "next_scope s' \<le> k"
  with assms(1) have k: "next_scope s \<le> k" by (simp add: evolves_def)
  with assms(2) have "Scope k \<noteq> p" by (cases p) auto
  with assms(1) have "scopes s' k = scopes s k" by (simp add: evolves_def)
  with assms(3) k show "scopes s' k = empty_members" by (simp add: fresh_scopes_def)
qed

lemma evolves_once:
  assumes ev: "evolves p s s'" and ex: "provider_exists s p" and once: "once s"
  shows "once s'"
proof -
  from ev obtain new where new: "created s' = created s @ new"
    "distinct (map key_of (cached new))"
    "\<forall>e \<in> set (cached new). \<not> claimed s (key_of e) \<and> claimed s' (key_of e)"
    unfolding evolves_def by blast
  have fr: "frozen s s'" using ev by (simp add: evolves_def)
  from once have old: "distinct (map key_of (cached (created s)))"
    "\<forall>e \<in> set (cached (created s)). claimed s (key_of e)"
    by (simp_all add: once_def)
  have split: "cached (created s') = cached (created s) @ cached new"
    using new(1) by (simp add: cached_def)
  have disj: "set (map key_of (cached (created s))) \<inter> set (map key_of (cached new)) = {}"
    using old(2) new(3) by (auto simp: image_iff)
  have d: "distinct (map key_of (cached (created s')))"
    using old(1) new(2) disj by (simp add: split)
  have c: "\<forall>e \<in> set (cached (created s')). claimed s' (key_of e)"
    unfolding split using old(2) new(3) frozen_claimed[OF fr] by (simp add: ball_Un)
  from evolves_fresh_scopes[OF ev ex] once d c show ?thesis by (simp add: once_def)
qed

lemma api_step_once: "api_step fs s s' \<Longrightarrow> once s \<Longrightarrow> once s'"
  by (induction rule: api_step.induct)
    (auto intro: evolves_once createScope_once dest: getService_evolves getServices_evolves)

lemma api_step_frozen: "api_step fs s s' \<Longrightarrow> once s \<Longrightarrow> frozen s s'"
  by (induction rule: api_step.induct)
    (auto intro: createScope_frozen dest: getService_evolves getServices_evolves evolves_frozen
      simp: once_def)

lemma once_build: "once build"
  by (simp add: once_def fresh_scopes_def build_def cached_def)

lemma api_steps_once: "(api_step fs)\<^sup>*\<^sup>* s s' \<Longrightarrow> once s \<Longrightarrow> once s'"
  by (induction rule: rtranclp_induct) (auto intro: api_step_once)

lemma api_steps_frozen: "(api_step fs)\<^sup>*\<^sup>* s s' \<Longrightarrow> once s \<Longrightarrow> frozen s s'"
proof (induction rule: rtranclp_induct)
  case base
  show ?case by (rule frozen_refl)
next
  case (step y z)
  from step.IH[OF step.prems] api_step_frozen[OF step.hyps(2) api_steps_once[OF step.hyps(1) step.prems]]
  show ?case by (rule frozen_trans)
qed

lemma reachable_once: "reachable fs s \<Longrightarrow> once s"
  unfolding reachable_def by (rule api_steps_once[OF _ once_build])

lemma reachable_step: "reachable fs s \<Longrightarrow> api_step fs s s' \<Longrightarrow> reachable fs s'"
  unfolding reachable_def by (rule rtranclp.rtrancl_into_rtrancl)

lemma reachable_steps: "reachable fs s \<Longrightarrow> (api_step fs)\<^sup>*\<^sup>* s s' \<Longrightarrow> reachable fs s'"
  unfolding reachable_def by (rule rtranclp_trans)

lemma distinct_filter_length: "distinct (map f xs) \<Longrightarrow> length (filter (\<lambda>e. f e = k) xs) \<le> 1"
proof (induction xs)
  case Nil
  show ?case by simp
next
  case (Cons x xs)
  show ?case
  proof (cases "f x = k")
    case True
    with Cons.prems have "filter (\<lambda>e. f e = k) xs = []"
      by (auto simp: filter_empty_conv image_iff)
    with True show ?thesis by simp
  next
    case False
    with Cons show ?thesis by simp
  qed
qed

lemma once_constructions: "once s \<Longrightarrow> constructions s k \<le> 1"
  unfolding constructions_def once_def by (blast intro: distinct_filter_length)

subsection \<open>A resolution returns what its slot has published\<close>

lemma published_frozen: "frozen s s' \<Longrightarrow> published s this key i v \<Longrightarrow> published s' this key i v"
  by (simp add: frozen_def published_def)

lemma published_unique: "published s this key i v \<Longrightarrow> published s this key i w \<Longrightarrow> v = w"
  by (simp add: published_def)

lemma getService_static_published:
  assumes sp: "provider_evolves sp"
    and run: "getService_static sp key descs this p index s = (Inr a, s')"
    and nt: "type (descs ! index) \<noteq> Transient"
  shows "\<exists>v. published s' this key index v \<and> apply_convert (convert (descs ! index)) v = Inr a"
  using run
proof (cases rule: getService_static_cases)
  case (constructed c v s3)
  let ?s1 = "emplace_instances this key (length descs) s"
  let ?s2 = "record_creation this key index p (type (descs ! index))
               (write_slot this key index (c\<lparr>initialized := True\<rparr>) ?s1)"
  have "slot_at ?s2 this key index = Some (c\<lparr>initialized := True\<rparr>)"
    using constructed(3) by (simp add: slot_at_write_slot)
  moreover have "frozen ?s2 s3" by (rule evolves_frozen[OF call_create_evolves[OF sp constructed(5)]])
  ultimately have "slot_at s3 this key index = Some (c\<lparr>initialized := True\<rparr>)"
    by (simp add: frozen_def)
  then have "published s' this key index v"
    using constructed(6) by (simp add: published_def slot_at_write_slot)
  with constructed(7) show ?thesis by auto
next
  case (cached c v)
  then have "c = \<lparr>initialized = True, serviceFuture = Some v\<rparr>" by simp
  with cached show ?thesis by (auto simp: published_def)
qed (use nt in simp_all)

subsection \<open>Which slot a lookup resolves\<close>

lemma single_lookup_owner_cases: "single_lookup_owner descs p = Root \<or> single_lookup_owner descs p = p"
  by (cases p) (auto split: list.splits)

lemma multi_lookup_owner_cases: "multi_lookup_owner descs p i = Root \<or> multi_lookup_owner descs p i = p"
  by (cases p) auto

lemma getService_static_form:
  assumes "getService n fs p ty s = (Inr a, s')" and "fs ty = Some descs"
  shows "getService_static (provider n fs) ty descs (single_lookup_owner descs p) p (size_minus_one descs) s
           = (Inr a, s')"
  using assms
  by (cases p)
    (auto simp: getService_def ServiceProvider_getService_def ScopedServiceProvider_getService_def
      split: list.splits if_splits)

lemma getServices_in_order_form:
  assumes "fs ty = Some descs"
  shows "getServices n fs p ty s =
           in_order (\<lambda>i. getService_static (provider n fs) ty descs (multi_lookup_owner descs p i) p i)
             [0..<length descs] s"
proof (cases p)
  case Root
  with assms show ?thesis by (simp add: getServices_def ServiceProvider_getServices_def)
next
  case (Scope k)
  have "(\<lambda>i. if type (descs ! i) = Scoped
              then getService_static (provider n fs) ty descs (Scope k) (Scope k) i
              else getService_static (provider n fs) ty descs Root (Scope k) i)
        = (\<lambda>i. getService_static (provider n fs) ty descs (multi_lookup_owner descs (Scope k) i) (Scope k) i)"
    by (rule ext) simp
  with assms Scope show ?thesis by (simp add: getServices_def ScopedServiceProvider_getServices_def)
qed

lemma in_order_nth:
  assumes refl: "\<And>s. R s s" and trans: "\<And>a b c. R a b \<Longrightarrow> R b c \<Longrightarrow> R a c"
    and step: "\<And>x s r s'. x \<in> set xs \<Longrightarrow> f x s = (r, s') \<Longrightarrow> R s s'"
    and run: "in_order f xs s = (Inr ys, s')"
  shows "length ys = length xs \<and>
         (\<forall>i < length xs. \<exists>t t'. R s t \<and> f (xs ! i) t = (Inr (ys ! i), t') \<and> R t' s')"
  using step run
proof (induction xs arbitrary: s ys s')
  case Nil
  then show ?case by auto
next
  case (Cons x xs)
  obtain r1 s1 where f: "f x s = (r1, s1)" by (cases "f x s")
  from f Cons.prems(2) obtain y where y: "r1 = Inr y" by (cases r1) auto
  obtain r2 s2 where rest: "in_order f xs s1 = (r2, s2)" by (cases "in_order f xs s1")
  from f y rest Cons.prems(2) obtain zs where zs: "r2 = Inr zs" "ys = y # zs" "s' = s2"
    by (cases r2) auto
  have hd: "R s s1" using Cons.prems(1)[OF _ f] by simp
  have tl: "R s1 s'"
  proof (rule in_order_preorder[where R = R and f = f and xs = xs and s = s1 and r = r2 and s' = s'])
    show "R a a" for a by (rule refl)
    show "R a c" if "R a b" "R b c" for a b c using that by (rule trans)
    show "R t t'" if "x' \<in> set xs" "f x' t = (r', t')" for x' t r' t'
      using Cons.prems(1)[of x' t r' t'] that by simp
    show "in_order f xs s1 = (r2, s')" using rest zs by simp
  qed
  have IH: "length zs = length xs \<and>
         (\<forall>i < length xs. \<exists>t t'. R s1 t \<and> f (xs ! i) t = (Inr (zs ! i), t') \<and> R t' s')"
  proof (rule Cons.IH)
    show "R t t'" if "x' \<in> set xs" "f x' t = (r', t')" for x' t r' t'
      using Cons.prems(1)[of x' t r' t'] that by simp
    show "in_order f xs s1 = (Inr zs, s')" using rest zs by simp
  qed
  show ?case
  proof (intro conjI allI impI)
    show "length ys = length (x # xs)" using IH zs by simp
  next
    fix i
    assume i: "i < length (x # xs)"
    show "\<exists>t t'. R s t \<and> f ((x # xs) ! i) t = (Inr (ys ! i), t') \<and> R t' s'"
    proof (cases i)
      case 0
      with f y zs hd tl refl show ?thesis by auto
    next
      case (Suc j)
      with i IH obtain t t' where "R s1 t" "f (xs ! j) t = (Inr (zs ! j), t')" "R t' s'" by auto
      with Suc zs hd trans show ?thesis by auto
    qed
  qed
qed

lemma getService_published:
  assumes "getService n fs p ty s = (Inr a, s')" and "fs ty = Some descs"
    and "type (descs ! size_minus_one descs) \<noteq> Transient"
  shows "\<exists>v. published s' (single_lookup_owner descs p) ty (size_minus_one descs) v
          \<and> apply_convert (convert (descs ! size_minus_one descs)) v = Inr a"
  by (rule getService_static_published[OF provider_evolves getService_static_form[OF assms(1,2)] assms(3)])

lemma getServices_published:
  assumes run: "getServices n fs p ty s = (Inr as, s')" and descs: "fs ty = Some descs"
    and i: "i < length descs" and nt: "type (descs ! i) \<noteq> Transient"
  shows "length as = length descs \<and>
         (\<exists>v. published s' (multi_lookup_owner descs p i) ty i v
            \<and> apply_convert (convert (descs ! i)) v = Inr (as ! i))"
proof -
  let ?f = "\<lambda>i. getService_static (provider n fs) ty descs (multi_lookup_owner descs p i) p i"
  from run have io: "in_order ?f [0..<length descs] s = (Inr as, s')"
    using getServices_in_order_form[where fs = fs and ty = ty and descs = descs, OF descs, of n p s]
    by simp
  have step: "\<And>x s r s'. x \<in> set [0..<length descs] \<Longrightarrow> ?f x s = (r, s') \<Longrightarrow> evolves p s s'"
    using getService_static_evolves[OF provider_evolves multi_lookup_owner_cases] by blast
  have "length as = length [0..<length descs] \<and>
         (\<forall>j < length [0..<length descs]. \<exists>t t'. evolves p s t
            \<and> ?f ([0..<length descs] ! j) t = (Inr (as ! j), t') \<and> evolves p t' s')"
  proof (rule in_order_nth[where R = "evolves p" and f = ?f])
    show "evolves p a a" for a by (rule evolves_refl)
    show "evolves p a c" if "evolves p a b" "evolves p b c" for a b c using that by (rule evolves_trans)
    show "evolves p t t'" if "x \<in> set [0..<length descs]" "?f x t = (r, t')" for x t r t'
      using step that by blast
    show "in_order ?f [0..<length descs] s = (Inr as, s')" by (rule io)
  qed
  then have len: "length as = length descs"
    and nth: "\<forall>j < length descs. \<exists>t t'. evolves p s t \<and> ?f j t = (Inr (as ! j), t') \<and> evolves p t' s'"
    by auto
  from nth i obtain t t' where t: "?f i t = (Inr (as ! i), t')" "evolves p t' s'" by auto
  from getService_static_published[OF provider_evolves t(1) nt]
  obtain v where v: "published t' (multi_lookup_owner descs p i) ty i v"
    "apply_convert (convert (descs ! i)) v = Inr (as ! i)" by blast
  from published_frozen[OF evolves_frozen[OF t(2)] v(1)] v(2) len show ?thesis by blast
qed

subsection \<open>Identical instances\<close>

lemma single_lookup_identical:
  assumes reach: "reachable fs s" and ex: "provider_exists s p"
    and descs: "fs ty = Some descs" and nt: "type (descs ! size_minus_one descs) \<noteq> Transient"
    and first: "getService n fs p ty s = (Inr a, s1)"
    and steps: "(api_step fs)\<^sup>*\<^sup>* s1 s2"
    and second: "getService m fs q ty s2 = (Inr b, s3)"
    and same: "single_lookup_owner descs q = single_lookup_owner descs p"
  shows "a = b"
proof -
  from getService_published[OF first descs nt]
  obtain v where v: "published s1 (single_lookup_owner descs p) ty (size_minus_one descs) v"
    "apply_convert (convert (descs ! size_minus_one descs)) v = Inr a" by blast
  from getService_published[OF second descs nt] same
  obtain w where w: "published s3 (single_lookup_owner descs p) ty (size_minus_one descs) w"
    "apply_convert (convert (descs ! size_minus_one descs)) w = Inr b" by auto
  have r1: "reachable fs s1" by (rule reachable_step[OF reach api_step.single[OF ex first]])
  have "frozen s1 s2" by (rule api_steps_frozen[OF steps reachable_once[OF r1]])
  moreover have "frozen s2 s3" by (rule evolves_frozen[OF getService_evolves[OF second]])
  ultimately have "frozen s1 s3" by (rule frozen_trans)
  from published_unique[OF published_frozen[OF this v(1)] w(1)] v(2) w(2) show ?thesis by simp
qed

lemma multi_lookup_identical:
  assumes reach: "reachable fs s" and ex: "provider_exists s p"
    and descs: "fs ty = Some descs" and i: "i < length descs" and nt: "type (descs ! i) \<noteq> Transient"
    and first: "getServices n fs p ty s = (Inr as, s1)"
    and steps: "(api_step fs)\<^sup>*\<^sup>* s1 s2"
    and second: "getServices m fs q ty s2 = (Inr bs, s3)"
    and same: "multi_lookup_owner descs q i = multi_lookup_owner descs p i"
  shows "as ! i = bs ! i"
proof -
  from getServices_published[OF first descs i nt]
  obtain v where v: "published s1 (multi_lookup_owner descs p i) ty i v"
    "apply_convert (convert (descs ! i)) v = Inr (as ! i)" by blast
  from getServices_published[OF second descs i nt] same
  obtain w where w: "published s3 (multi_lookup_owner descs p i) ty i w"
    "apply_convert (convert (descs ! i)) w = Inr (bs ! i)" by auto
  have r1: "reachable fs s1" by (rule reachable_step[OF reach api_step.multi[OF ex first]])
  have "frozen s1 s2" by (rule api_steps_frozen[OF steps reachable_once[OF r1]])
  moreover have "frozen s2 s3" by (rule evolves_frozen[OF getServices_evolves[OF second]])
  ultimately have "frozen s1 s3" by (rule frozen_trans)
  from published_unique[OF published_frozen[OF this v(1)] w(1)] v(2) w(2) show ?thesis by simp
qed

subsection \<open>Published instances are objects of the registered implementation\<close>

lemma keeps_sound_refl: "keeps_sound fs s s"
  by (simp add: keeps_sound_def)

lemma keeps_sound_trans: "keeps_sound fs a b \<Longrightarrow> keeps_sound fs b c \<Longrightarrow> keeps_sound fs a c"
  by (simp add: keeps_sound_def)

lemma in_order_keeps_sound:
  assumes "\<And>x s r s'. x \<in> set xs \<Longrightarrow> f x s = (r, s') \<Longrightarrow> keeps_sound fs s s'"
    and "in_order f xs s = (r, s')"
  shows "keeps_sound fs s s'"
proof (rule in_order_preorder[where R = "keeps_sound fs" and f = f and xs = xs and s = s and r = r])
  show "keeps_sound fs a a" for a by (rule keeps_sound_refl)
  show "keeps_sound fs a c" if "keeps_sound fs a b" "keeps_sound fs b c" for a b c
    using that by (rule keeps_sound_trans)
  show "keeps_sound fs t t'" if "x \<in> set xs" "f x t = (r', t')" for x t r' t'
    using assms(1) that by blast
  show "in_order f xs s = (r, s')" by (rule assms(2))
qed

lemma ServiceFactory_getService_keeps_sound:
  assumes "provider_sound fs sp" and "ServiceFactory_getService sp p prm s = (r, s')"
  shows "keeps_sound fs s s'"
  using assms(2)
  by (cases rule: ServiceFactory_getService_cases)
    (use assms(1) in \<open>unfold provider_sound_def, blast\<close>)+

lemma sound_next_address: "sound fs s \<Longrightarrow> sound fs (s\<lparr>next_address := Suc (next_address s)\<rparr>)"
  unfolding sound_def
proof (intro conjI allI impI)
  fix this key i c v
  assume a: "(\<forall>this key i c v. slot_at s this key i = Some c \<and> serviceFuture c = Some v \<longrightarrow>
        (\<exists>descs obj. fs key = Some descs \<and> i < length descs \<and> v = SharedPtr obj
           \<and> dynamic_type obj = implementation (create (descs ! i))
           \<and> allocated s obj))
     \<and> (\<forall>q v. v \<in> set (initializationOrder (members s q)) \<longrightarrow>
           (\<exists>obj. v = SharedPtr obj \<and> allocated s obj))"
    and b: "slot_at (s\<lparr>next_address := Suc (next_address s)\<rparr>) this key i = Some c \<and> serviceFuture c = Some v"
  from b have "slot_at s this key i = Some c \<and> serviceFuture c = Some v" by simp
  with a obtain descs obj where "fs key = Some descs" "i < length descs" "v = SharedPtr obj"
    "dynamic_type obj = implementation (create (descs ! i))" "allocated s obj" by blast
  with allocated_next_address[OF this(5)]
  show "\<exists>descs obj. fs key = Some descs \<and> i < length descs \<and> v = SharedPtr obj
           \<and> dynamic_type obj = implementation (create (descs ! i))
           \<and> allocated (s\<lparr>next_address := Suc (next_address s)\<rparr>) obj" by blast
next
  fix q v
  assume a: "(\<forall>this key i c v. slot_at s this key i = Some c \<and> serviceFuture c = Some v \<longrightarrow>
        (\<exists>descs obj. fs key = Some descs \<and> i < length descs \<and> v = SharedPtr obj
           \<and> dynamic_type obj = implementation (create (descs ! i))
           \<and> allocated s obj))
     \<and> (\<forall>q v. v \<in> set (initializationOrder (members s q)) \<longrightarrow>
           (\<exists>obj. v = SharedPtr obj \<and> allocated s obj))"
    and b: "v \<in> set (initializationOrder (members (s\<lparr>next_address := Suc (next_address s)\<rparr>) q))"
  from b have "v \<in> set (initializationOrder (members s q))" by simp
  with a obtain obj where "v = SharedPtr obj" "allocated s obj" by blast
  with allocated_next_address[OF this(2)]
  show "\<exists>obj. v = SharedPtr obj \<and> allocated (s\<lparr>next_address := Suc (next_address s)\<rparr>) obj" by blast
qed


lemma call_create_keeps_sound:
  assumes "provider_sound fs sp" and "call_create f sp p s = (r, s')"
  shows "keeps_sound fs s s'"
  using assms(2)
proof (cases rule: call_create_cases)
  case (failed e T ps)
  from in_order_keeps_sound[OF _ failed(2)] ServiceFactory_getService_keeps_sound[OF assms(1)]
  show ?thesis by blast
next
  case (created args s1 T ps)
  from in_order_keeps_sound[OF _ created(2)] ServiceFactory_getService_keeps_sound[OF assms(1)]
  have "keeps_sound fs s s1" by blast
  with created(4) sound_next_address show ?thesis by (auto simp: keeps_sound_def)
next
  case (existing T n)
  then show ?thesis by (simp add: keeps_sound_def)
qed

lemma call_create_result:
  assumes "call_create f sp p s = (Inr a, s')"
  shows "\<exists>obj. a = SharedPtr obj \<and> dynamic_type obj = implementation f \<and> allocated s' obj"
  using assms by (cases rule: call_create_cases) auto

lemma sound_emplace_instances: "sound fs s \<Longrightarrow> sound fs (emplace_instances this key n s)"
  unfolding sound_def
  by (auto simp: slot_at_emplace_instances new_slot_def split: if_splits)

lemma sound_record_creation: "sound fs s \<Longrightarrow> sound fs (record_creation this key i p t s)"
  unfolding sound_def by simp

lemma sound_claim:
  assumes "sound fs s" and "slot_at s this key i = Some c"
  shows "sound fs (write_slot this key i (c\<lparr>initialized := True\<rparr>) s)"
  using assms unfolding sound_def
  by (auto simp: slot_at_write_slot split: if_splits)

lemma sound_publish:
  assumes s: "sound fs s" and descs: "fs key = Some descs" and i: "i < length descs"
    and ty: "dynamic_type obj = implementation (create (descs ! i))"
    and addr: "allocated s obj"
  shows "sound fs (emplace_back_order this (SharedPtr obj)
           (write_slot this key i \<lparr>initialized = True, serviceFuture = Some (SharedPtr obj)\<rparr> s))"
  unfolding sound_def
proof (intro conjI allI impI)
  fix q key' j c v
  assume a: "slot_at (emplace_back_order this (SharedPtr obj)
           (write_slot this key i \<lparr>initialized = True, serviceFuture = Some (SharedPtr obj)\<rparr> s)) q key' j = Some c
        \<and> serviceFuture c = Some v"
  show "\<exists>descs obj'. fs key' = Some descs \<and> j < length descs \<and> v = SharedPtr obj'
           \<and> dynamic_type obj' = implementation (create (descs ! j))
           \<and> allocated (emplace_back_order this (SharedPtr obj)
           (write_slot this key i \<lparr>initialized = True, serviceFuture = Some (SharedPtr obj)\<rparr> s)) obj'"
  proof (cases "q = this \<and> key' = key \<and> j = i \<and> slot_at s this key i \<noteq> None")
    case True
    with a have "v = SharedPtr obj" by (auto simp: slot_at_write_slot)
    with True descs i ty addr show ?thesis by auto
  next
    case False
    with a have "slot_at s q key' j = Some c \<and> serviceFuture c = Some v"
      by (auto simp: slot_at_write_slot)
    with s show ?thesis unfolding sound_def by simp
  qed
next
  fix q v
  assume "v \<in> set (initializationOrder (members (emplace_back_order this (SharedPtr obj)
           (write_slot this key i \<lparr>initialized = True, serviceFuture = Some (SharedPtr obj)\<rparr> s)) q))"
  then have "v = SharedPtr obj \<or> v \<in> set (initializationOrder (members s q))"
    by (auto split: if_splits)
  with s addr show "\<exists>obj'. v = SharedPtr obj' \<and> allocated (emplace_back_order this (SharedPtr obj)
           (write_slot this key i \<lparr>initialized = True, serviceFuture = Some (SharedPtr obj)\<rparr> s)) obj'"
    unfolding sound_def by auto
qed

lemma getService_static_keeps_sound:
  assumes sp: "provider_sound fs sp" and descs: "fs key = Some descs"
    and run: "getService_static sp key descs this p index s = (r, s')"
  shows "keeps_sound fs s s'"
  unfolding keeps_sound_def
proof
  assume s: "sound fs s"
  let ?s1 = "emplace_instances this key (length descs) s"
  have s1: "sound fs ?s1" by (rule sound_emplace_instances[OF s])
  from run show "sound fs s'"
  proof (cases rule: getService_static_cases)
    case out_of_range
    with s show ?thesis by simp
  next
    case undefined
    with s1 show ?thesis by simp
  next
    case (failed c e)
    have "sound fs (record_creation this key index p (type (descs ! index))
         (write_slot this key index (c\<lparr>initialized := True\<rparr>) ?s1))"
      by (rule sound_record_creation[OF sound_claim[OF s1 failed(3)]])
    with call_create_keeps_sound[OF sp failed(5)] show ?thesis by (simp add: keeps_sound_def)
  next
    case (constructed c a s3)
    have "sound fs (record_creation this key index p (type (descs ! index))
         (write_slot this key index (c\<lparr>initialized := True\<rparr>) ?s1))"
      by (rule sound_record_creation[OF sound_claim[OF s1 constructed(3)]])
    with call_create_keeps_sound[OF sp constructed(5)] have s3: "sound fs s3"
      by (simp add: keeps_sound_def)
    from call_create_result[OF constructed(5)] obtain obj where obj: "a = SharedPtr obj"
      "dynamic_type obj = implementation (create (descs ! index))" "allocated s3 obj"
      by auto
    from sound_publish[OF s3 descs constructed(1) obj(2,3)] constructed(6) obj(1)
    show ?thesis by simp
  next
    case (deadlock c)
    with s1 show ?thesis by simp
  next
    case (cached c a)
    with s1 show ?thesis by simp
  next
    case (transient_failed e)
    from call_create_keeps_sound[OF sp transient_failed(3)] sound_record_creation[OF s]
    show ?thesis by (simp add: keeps_sound_def)
  next
    case (transient a)
    from call_create_keeps_sound[OF sp transient(3)] sound_record_creation[OF s]
    show ?thesis by (simp add: keeps_sound_def)
  qed
qed

lemma dispatch_getService_keeps_sound:
  assumes sp: "provider_sound fs sp" and run: "dispatch_getService sp fs p ty s = (r, s')"
  shows "keeps_sound fs s s'"
proof (cases "fs ty")
  case None
  with run show ?thesis
    by (cases p) (auto simp: ServiceProvider_getService_def ScopedServiceProvider_getService_def keeps_sound_refl)
next
  case (Some descs)
  show ?thesis
  proof (cases p)
    case Root
    with run Some show ?thesis
      by (auto simp: ServiceProvider_getService_def intro: getService_static_keeps_sound[OF sp Some])
  next
    case (Scope k)
    with run Some show ?thesis
      by (auto simp: ScopedServiceProvider_getService_def keeps_sound_refl
          intro: getService_static_keeps_sound[OF sp Some] split: list.splits if_splits)
  qed
qed

lemma dispatch_getServices_keeps_sound:
  assumes sp: "provider_sound fs sp" and run: "dispatch_getServices sp fs p ty s = (r, s')"
  shows "keeps_sound fs s s'"
proof (cases "fs ty")
  case None
  with run show ?thesis
    by (cases p) (auto simp: ServiceProvider_getServices_def ScopedServiceProvider_getServices_def keeps_sound_refl)
next
  case (Some descs)
  show ?thesis
  proof (cases p)
    case Root
    with run Some have io: "in_order (getService_static sp ty descs Root Root) [0..<length descs] s = (r, s')"
      by (simp add: ServiceProvider_getServices_def)
    show ?thesis
      by (rule in_order_keeps_sound[OF _ io]) (auto intro: getService_static_keeps_sound[OF sp Some])
  next
    case (Scope k)
    with run Some have io: "in_order (\<lambda>i. if type (descs ! i) = Scoped
                  then getService_static sp ty descs (Scope k) (Scope k) i
                  else getService_static sp ty descs Root (Scope k) i) [0..<length descs] s = (r, s')"
      by (simp add: ScopedServiceProvider_getServices_def)
    show ?thesis
      by (rule in_order_keeps_sound[OF _ io])
        (auto intro: getService_static_keeps_sound[OF sp Some] split: if_splits)
  qed
qed

lemma provider_sound: "provider_sound fs (provider n fs)"
proof (induction n)
  case 0
  show ?case by (simp add: provider_sound_def keeps_sound_refl)
next
  case (Suc n)
  show ?case
    unfolding provider_sound_def
    using dispatch_getService_keeps_sound[OF Suc] dispatch_getServices_keeps_sound[OF Suc]
    by simp
qed

lemma getService_sound: "getService n fs p ty s = (r, s') \<Longrightarrow> sound fs s \<Longrightarrow> sound fs s'"
  using dispatch_getService_keeps_sound[OF provider_sound[of fs n], of p ty s r s']
  by (simp add: getService_def keeps_sound_def)

lemma getServices_sound: "getServices n fs p ty s = (r, s') \<Longrightarrow> sound fs s \<Longrightarrow> sound fs s'"
  using dispatch_getServices_keeps_sound[OF provider_sound[of fs n], of p ty s r s']
  by (simp add: getServices_def keeps_sound_def)

lemma createScope_sound: "createScope s = (p, s') \<Longrightarrow> sound fs s \<Longrightarrow> sound fs s'"
  unfolding sound_def
proof (intro conjI allI impI)
  fix this key i c v
  assume cs: "createScope s = (p, s')" and s: "(\<forall>this key i c v. slot_at s this key i = Some c \<and> serviceFuture c = Some v \<longrightarrow>
        (\<exists>descs obj. fs key = Some descs \<and> i < length descs \<and> v = SharedPtr obj
           \<and> dynamic_type obj = implementation (create (descs ! i))
           \<and> allocated s obj))
     \<and> (\<forall>q v. v \<in> set (initializationOrder (members s q)) \<longrightarrow>
           (\<exists>obj. v = SharedPtr obj \<and> allocated s obj))"
    and a: "slot_at s' this key i = Some c \<and> serviceFuture c = Some v"
  from cs have m: "members s' this = members s this \<or> members s' this = empty_members"
    by (cases this) (auto simp: createScope_def)
  from cs have "next_address s' = next_address s" by (auto simp: createScope_def)
  then have na: "\<And>obj. allocated s' obj = allocated s obj" by (rule allocated_same)
  from m a have "slot_at s this key i = Some c"
    by (auto simp: slot_at_def empty_members_def)
  with s a na show "\<exists>descs obj. fs key = Some descs \<and> i < length descs \<and> v = SharedPtr obj
           \<and> dynamic_type obj = implementation (create (descs ! i))
           \<and> allocated s' obj"
    by simp blast
next
  fix q v
  assume cs: "createScope s = (p, s')" and s: "(\<forall>this key i c v. slot_at s this key i = Some c \<and> serviceFuture c = Some v \<longrightarrow>
        (\<exists>descs obj. fs key = Some descs \<and> i < length descs \<and> v = SharedPtr obj
           \<and> dynamic_type obj = implementation (create (descs ! i))
           \<and> allocated s obj))
     \<and> (\<forall>q v. v \<in> set (initializationOrder (members s q)) \<longrightarrow>
           (\<exists>obj. v = SharedPtr obj \<and> allocated s obj))"
    and a: "v \<in> set (initializationOrder (members s' q))"
  from cs have m: "members s' q = members s q \<or> members s' q = empty_members"
    by (cases q) (auto simp: createScope_def)
  from cs have "next_address s' = next_address s" by (auto simp: createScope_def)
  then have na: "\<And>obj. allocated s' obj = allocated s obj" by (rule allocated_same)
  from m a have "v \<in> set (initializationOrder (members s q))"
    by (auto simp: empty_members_def)
  with s na show "\<exists>obj. v = SharedPtr obj \<and> allocated s' obj" by simp
qed

lemma api_step_sound: "api_step fs s s' \<Longrightarrow> sound fs s \<Longrightarrow> sound fs s'"
  by (induction rule: api_step.induct) (auto intro: getService_sound getServices_sound createScope_sound)

lemma members_build: "members build q = empty_members"
  by (cases q) (simp_all add: build_def)

lemma sound_build: "sound fs build"
  by (simp add: sound_def slot_at_def members_build) (simp add: empty_members_def)

lemma reachable_sound: "reachable fs s \<Longrightarrow> sound fs s"
  unfolding reachable_def
  by (induction rule: rtranclp_induct) (auto intro: sound_build api_step_sound)

subsection \<open>Changes of the tables are accounted for by factory calls\<close>

lemma table_emplace_instances:
  "instances (members (emplace_instances this key n s) q) key' =
     (if q = this \<and> key' = key \<and> instances (members s this) key = None
      then Some (replicate n new_slot)
      else instances (members s q) key')"
  by (auto simp: emplace_instances_def split: option.splits)

lemma table_write_slot_other:
  "(q, key') \<noteq> (this, key) \<Longrightarrow>
   instances (members (write_slot this key i c s) q) key' = instances (members s q) key'"
  by (auto simp: write_slot_def split: option.splits)

lemma table_emplace_back_order [simp]:
  "instances (members (emplace_back_order this a s) q) = instances (members s q)"
  by (auto simp: emplace_back_order_def)

lemma accountedI:
  assumes "created s' = created s @ new"
    and "\<And>q key. instances (members s' q) key \<noteq> instances (members s q) key
           \<Longrightarrow> \<exists>e \<in> set (cached new). c_owner e = q \<and> c_key e = key"
    and "\<And>q. \<exists>more. initializationOrder (members s' q) = initializationOrder (members s q) @ more
              \<and> length more \<le> length (filter (\<lambda>e. c_owner e = q) (cached new))"
  shows "accounted s s'"
  unfolding accounted_def using assms by blast

lemma accountedE:
  assumes "accounted s s'"
  obtains new where "created s' = created s @ new"
    and "\<forall>q key. instances (members s' q) key \<noteq> instances (members s q) key
           \<longrightarrow> (\<exists>e \<in> set (cached new). c_owner e = q \<and> c_key e = key)"
    and "\<forall>q. \<exists>more. initializationOrder (members s' q) = initializationOrder (members s q) @ more
              \<and> length more \<le> length (filter (\<lambda>e. c_owner e = q) (cached new))"
  using assms unfolding accounted_def by blast

lemma accounted_refl: "accounted s s"
  by (rule accountedI[where new = "[]"]) simp_all

lemma cached_append [simp]: "cached (xs @ ys) = cached xs @ cached ys"
  by (simp add: cached_def)

lemma accounted_trans:
  assumes "accounted s s'" and "accounted s' s''"
  shows "accounted s s''"
proof -
  from assms(1) obtain n1 where n1: "created s' = created s @ n1"
    "\<forall>q key. instances (members s' q) key \<noteq> instances (members s q) key
           \<longrightarrow> (\<exists>e \<in> set (cached n1). c_owner e = q \<and> c_key e = key)"
    "\<forall>q. \<exists>more. initializationOrder (members s' q) = initializationOrder (members s q) @ more
              \<and> length more \<le> length (filter (\<lambda>e. c_owner e = q) (cached n1))"
    by (rule accountedE)
  from assms(2) obtain n2 where n2: "created s'' = created s' @ n2"
    "\<forall>q key. instances (members s'' q) key \<noteq> instances (members s' q) key
           \<longrightarrow> (\<exists>e \<in> set (cached n2). c_owner e = q \<and> c_key e = key)"
    "\<forall>q. \<exists>more. initializationOrder (members s'' q) = initializationOrder (members s' q) @ more
              \<and> length more \<le> length (filter (\<lambda>e. c_owner e = q) (cached n2))"
    by (rule accountedE)
  show ?thesis
  proof (rule accountedI[where new = "n1 @ n2"])
    show "created s'' = created s @ n1 @ n2" using n1(1) n2(1) by simp
  next
    fix q key
    assume d: "instances (members s'' q) key \<noteq> instances (members s q) key"
    show "\<exists>e \<in> set (cached (n1 @ n2)). c_owner e = q \<and> c_key e = key"
    proof (cases "instances (members s' q) key = instances (members s q) key")
      case True
      with d have "instances (members s'' q) key \<noteq> instances (members s' q) key" by simp
      from n2(2)[rule_format, OF this] show ?thesis by auto
    next
      case False
      from n1(2)[rule_format, OF this] show ?thesis by auto
    qed
  next
    fix q
    from n1(3)[rule_format, of q] obtain m1 where m1:
      "initializationOrder (members s' q) = initializationOrder (members s q) @ m1"
      "length m1 \<le> length (filter (\<lambda>e. c_owner e = q) (cached n1))" by blast
    from n2(3)[rule_format, of q] obtain m2 where m2:
      "initializationOrder (members s'' q) = initializationOrder (members s' q) @ m2"
      "length m2 \<le> length (filter (\<lambda>e. c_owner e = q) (cached n2))" by blast
    show "\<exists>more. initializationOrder (members s'' q) = initializationOrder (members s q) @ more
              \<and> length more \<le> length (filter (\<lambda>e. c_owner e = q) (cached (n1 @ n2)))"
      by (rule exI[of _ "m1 @ m2"]) (use m1 m2 in simp)
  qed
qed

lemma in_order_accounted:
  assumes "\<And>x s r s'. x \<in> set xs \<Longrightarrow> f x s = (r, s') \<Longrightarrow> accounted s s'"
    and "in_order f xs s = (r, s')"
  shows "accounted s s'"
  by (rule in_order_preorder[where R = accounted, OF accounted_refl accounted_trans assms])

lemma ServiceFactory_getService_accounted:
  assumes "provider_accounted sp" and "ServiceFactory_getService sp p prm s = (r, s')"
  shows "accounted s s'"
  using assms(2)
  by (cases rule: ServiceFactory_getService_cases)
    (use assms(1) in \<open>unfold provider_accounted_def, blast\<close>)+

lemma next_address_accounted: "accounted s (s\<lparr>next_address := Suc (next_address s)\<rparr>)"
  by (rule accountedI[where new = "[]"]) simp_all

lemma call_create_accounted:
  assumes "provider_accounted sp" and "call_create f sp p s = (r, s')"
  shows "accounted s s'"
  using assms(2)
proof (cases rule: call_create_cases)
  case (failed e T ps)
  from in_order_accounted[OF _ failed(2)] ServiceFactory_getService_accounted[OF assms(1)]
  show ?thesis by blast
next
  case (created args s1 T ps)
  from in_order_accounted[OF _ created(2)] ServiceFactory_getService_accounted[OF assms(1)]
  have "accounted s s1" by blast
  from accounted_trans[OF this next_address_accounted] created(4) show ?thesis by simp
next
  case (existing T n)
  then show ?thesis by (simp add: accounted_refl)
qed

lemma record_transient_accounted: "accounted s (record_creation this key i p Transient s)"
  by (rule accountedI[where
        new = "[\<lparr>c_owner = this, c_key = key, c_index = i, c_provider = p, c_type = Transient\<rparr>]"])
    (simp_all add: cached_def)

lemma emplace_present: "instances (members s this) key \<noteq> None \<Longrightarrow> emplace_instances this key n s = s"
  by (auto simp: emplace_instances_def)

lemma claim_accounted:
  assumes "t \<noteq> Transient"
  shows "accounted s (record_creation this key i p t (write_slot this key i c
            (emplace_instances this key n s)))"
proof (rule accountedI[where
        new = "[\<lparr>c_owner = this, c_key = key, c_index = i, c_provider = p, c_type = t\<rparr>]"])
  let ?s' = "record_creation this key i p t (write_slot this key i c (emplace_instances this key n s))"
  show "created ?s' = created s @ [\<lparr>c_owner = this, c_key = key, c_index = i, c_provider = p, c_type = t\<rparr>]"
    by simp
  show "\<exists>e \<in> set (cached [\<lparr>c_owner = this, c_key = key, c_index = i, c_provider = p, c_type = t\<rparr>]).
          c_owner e = q \<and> c_key e = key'"
    if "instances (members ?s' q) key' \<noteq> instances (members s q) key'" for q key'
  proof (cases "(q, key') = (this, key)")
    case True
    with assms show ?thesis by (simp add: cached_def)
  next
    case False
    then have "instances (members ?s' q) key' = instances (members s q) key'"
      by (auto simp: table_write_slot_other table_emplace_instances)
    with that show ?thesis by simp
  qed
  show "\<exists>more. initializationOrder (members ?s' q) = initializationOrder (members s q) @ more
          \<and> length more \<le> length (filter (\<lambda>e. c_owner e = q)
               (cached [\<lparr>c_owner = this, c_key = key, c_index = i, c_provider = p, c_type = t\<rparr>]))" for q
    by (rule exI[of _ "[]"]) simp
qed

lemma publish_accounted:
  assumes t: "t \<noteq> Transient"
    and inner: "accounted (record_creation this key i p t (write_slot this key i c
            (emplace_instances this key n s))) s3"
  shows "accounted s (emplace_back_order this a (write_slot this key i c' s3))"
proof -
  let ?e = "\<lparr>c_owner = this, c_key = key, c_index = i, c_provider = p, c_type = t\<rparr>"
  let ?s2 = "record_creation this key i p t (write_slot this key i c (emplace_instances this key n s))"
  let ?s' = "emplace_back_order this a (write_slot this key i c' s3)"
  from inner obtain n3 where n3: "created s3 = created ?s2 @ n3"
    "\<forall>q key. instances (members s3 q) key \<noteq> instances (members ?s2 q) key
           \<longrightarrow> (\<exists>e \<in> set (cached n3). c_owner e = q \<and> c_key e = key)"
    "\<forall>q. \<exists>more. initializationOrder (members s3 q) = initializationOrder (members ?s2 q) @ more
              \<and> length more \<le> length (filter (\<lambda>e. c_owner e = q) (cached n3))"
    by (rule accountedE)
  have ce: "cached (?e # n3) = ?e # cached n3" using t by (simp add: cached_def)
  show ?thesis
  proof (rule accountedI[where new = "?e # n3"])
    show "created ?s' = created s @ ?e # n3" using n3(1) by simp
  next
    fix q key'
    assume d: "instances (members ?s' q) key' \<noteq> instances (members s q) key'"
    show "\<exists>e \<in> set (cached (?e # n3)). c_owner e = q \<and> c_key e = key'"
    proof (cases "(q, key') = (this, key)")
      case True
      then show ?thesis unfolding ce by simp
    next
      case False
      then have a: "instances (members ?s' q) key' = instances (members s3 q) key'"
        and b: "instances (members ?s2 q) key' = instances (members s q) key'"
        by (auto simp: table_write_slot_other table_emplace_instances)
      with d have "instances (members s3 q) key' \<noteq> instances (members ?s2 q) key'" by simp
      from n3(2)[rule_format, OF this] show ?thesis unfolding ce by auto
    qed
  next
    fix q
    from n3(3)[rule_format, of q] obtain m where m:
      "initializationOrder (members s3 q) = initializationOrder (members ?s2 q) @ m"
      "length m \<le> length (filter (\<lambda>e. c_owner e = q) (cached n3))" by blast
    show "\<exists>more. initializationOrder (members ?s' q) = initializationOrder (members s q) @ more
              \<and> length more \<le> length (filter (\<lambda>e. c_owner e = q) (cached (?e # n3)))"
      unfolding ce
      by (rule exI[of _ "if q = this then m @ [a] else m"]) (use m in auto)
  qed
qed

lemma getService_static_accounted:
  assumes sp: "provider_accounted sp"
    and run: "getService_static sp key descs this p index s = (r, s')"
  shows "accounted s s'"
  using run
proof (cases rule: getService_static_cases)
  case out_of_range
  then show ?thesis by (simp add: accounted_refl)
next
  case undefined
  have "instances (members s this) key \<noteq> None"
  proof
    assume "instances (members s this) key = None"
    with undefined(1,3) show False by (simp add: slot_at_emplace_instances)
  qed
  with undefined(5) show ?thesis by (simp add: emplace_present accounted_refl)
next
  case (failed c e)
  from accounted_trans[OF claim_accounted[OF failed(2)] call_create_accounted[OF sp failed(5)]]
  show ?thesis .
next
  case (constructed c a s3)
  from publish_accounted[OF constructed(2) call_create_accounted[OF sp constructed(5)]] constructed(6)
  show ?thesis by simp
next
  case (deadlock c)
  have "instances (members s this) key \<noteq> None"
  proof
    assume "instances (members s this) key = None"
    with deadlock(3,4) show False
      by (auto simp: slot_at_emplace_instances new_slot_def split: if_splits)
  qed
  with deadlock(7) show ?thesis by (simp add: emplace_present accounted_refl)
next
  case (cached c a)
  have "instances (members s this) key \<noteq> None"
  proof
    assume "instances (members s this) key = None"
    with cached(3,4) show False
      by (auto simp: slot_at_emplace_instances new_slot_def split: if_splits)
  qed
  with cached(7) show ?thesis by (simp add: emplace_present accounted_refl)
next
  case (transient_failed e)
  from transient_failed(2,3) accounted_trans[OF record_transient_accounted] call_create_accounted[OF sp]
  show ?thesis by metis
next
  case (transient a)
  from transient(2,3) accounted_trans[OF record_transient_accounted] call_create_accounted[OF sp]
  show ?thesis by metis
qed

lemma dispatch_getService_accounted:
  assumes sp: "provider_accounted sp" and run: "dispatch_getService sp fs p ty s = (r, s')"
  shows "accounted s s'"
proof (cases p)
  case Root
  with run show ?thesis
    by (auto simp: ServiceProvider_getService_def accounted_refl split: option.splits
        intro: getService_static_accounted[OF sp])
next
  case (Scope k)
  with run show ?thesis
    by (auto simp: ScopedServiceProvider_getService_def accounted_refl
        split: option.splits list.splits if_splits intro: getService_static_accounted[OF sp])
qed

lemma dispatch_getServices_accounted:
  assumes sp: "provider_accounted sp" and run: "dispatch_getServices sp fs p ty s = (r, s')"
  shows "accounted s s'"
proof (cases p)
  case Root
  show ?thesis
  proof (cases "fs ty")
    case None
    with Root run show ?thesis by (simp add: ServiceProvider_getServices_def accounted_refl)
  next
    case (Some descs)
    with Root run have "in_order (getService_static sp ty descs Root Root) [0..<length descs] s = (r, s')"
      by (simp add: ServiceProvider_getServices_def)
    from in_order_accounted[OF _ this] getService_static_accounted[OF sp] show ?thesis by blast
  qed
next
  case (Scope k)
  show ?thesis
  proof (cases "fs ty")
    case None
    with Scope run show ?thesis by (simp add: ScopedServiceProvider_getServices_def accounted_refl)
  next
    case (Some descs)
    with Scope run have r: "in_order (\<lambda>i. if type (descs ! i) = Scoped
                  then getService_static sp ty descs (Scope k) (Scope k) i
                  else getService_static sp ty descs Root (Scope k) i) [0..<length descs] s = (r, s')"
      by (simp add: ScopedServiceProvider_getServices_def)
    show ?thesis
    proof (rule in_order_accounted[OF _ r])
      fix x s r s'
      assume "(if type (descs ! x) = Scoped
                  then getService_static sp ty descs (Scope k) (Scope k) x
                  else getService_static sp ty descs Root (Scope k) x) s = (r, s')"
      then show "accounted s s'"
        using getService_static_accounted[OF sp] by (auto split: if_splits)
    qed
  qed
qed

lemma provider_accounted: "provider_accounted (provider n fs)"
proof (induction n)
  case 0
  show ?case by (simp add: provider_accounted_def accounted_refl)
next
  case (Suc n)
  show ?case
    unfolding provider_accounted_def
    using dispatch_getService_accounted[OF Suc] dispatch_getServices_accounted[OF Suc]
    by simp
qed

lemma getService_accounted: "getService n fs p ty s = (r, s') \<Longrightarrow> accounted s s'"
  unfolding getService_def by (rule dispatch_getService_accounted[OF provider_accounted])

lemma getServices_accounted: "getServices n fs p ty s = (r, s') \<Longrightarrow> accounted s s'"
  unfolding getServices_def by (rule dispatch_getServices_accounted[OF provider_accounted])

lemma accounted_unchanged:
  assumes "accounted s s'" and "cached (drop (length (created s)) (created s')) = []"
  shows "root s' = root s \<and> scopes s' = scopes s"
proof -
  from assms(1) obtain new where new: "created s' = created s @ new"
    "\<forall>q key. instances (members s' q) key \<noteq> instances (members s q) key
           \<longrightarrow> (\<exists>e \<in> set (cached new). c_owner e = q \<and> c_key e = key)"
    "\<forall>q. \<exists>more. initializationOrder (members s' q) = initializationOrder (members s q) @ more
              \<and> length more \<le> length (filter (\<lambda>e. c_owner e = q) (cached new))"
    by (rule accountedE)
  from assms(2) new(1) have c: "cached new = []" by simp
  have i: "instances (members s' q) = instances (members s q)" for q
  proof
    fix key
    show "instances (members s' q) key = instances (members s q) key"
      using new(2)[rule_format, of q key] c by auto
  qed
  have o: "initializationOrder (members s' q) = initializationOrder (members s q)" for q
    using new(3)[rule_format, of q] c by auto
  have m: "members s' q = members s q" for q
    using i[of q] o[of q] by (rule_tac provider_members.equality) simp_all
  from m[of Root] have "root s' = root s" by simp
  moreover have "scopes s' = scopes s"
  proof
    fix k
    from m[of "Scope k"] show "scopes s' k = scopes s k" by simp
  qed
  ultimately show ?thesis by simp
qed

subsection \<open>Stored instances\<close>

lemma grows_refl: "grows s s"
  by (simp add: grows_def)

lemma grows_trans:
  assumes "grows a b" and "grows b c"
  shows "grows a c"
  unfolding grows_def
proof (intro conjI ballI)
  show "next_address a \<le> next_address c" using assms by (simp add: grows_def)
next
  fix v
  assume "v \<in> stored c"
  with assms(2) consider "v \<in> stored b" | obj where "v = SharedPtr obj" "made_since b obj"
    unfolding grows_def by blast
  then show "v \<in> stored a \<or> (\<exists>obj. v = SharedPtr obj \<and> made_since a obj)"
  proof cases
    case 1
    with assms(1) show ?thesis unfolding grows_def by blast
  next
    case 2
    moreover from assms(1) have "next_address a \<le> next_address b" by (simp add: grows_def)
    ultimately show ?thesis using made_since_mono by blast
  qed
qed

lemma evolves_grows: "evolves p s s' \<Longrightarrow> grows s s'"
  by (simp add: evolves_def grows_def)

lemma createScope_members:
  "createScope s = (p, s') \<Longrightarrow> members s' q = members s q \<or> members s' q = empty_members"
  by (cases q) (auto simp: createScope_def)

lemma createScope_stored:
  assumes "createScope s = (p, s')" and "v \<in> stored s'"
  shows "v \<in> stored s"
proof -
  note m = createScope_members[OF assms(1)]
  from assms(2) consider this key i c where "slot_at s' this key i = Some c" "serviceFuture c = Some v"
    | q where "v \<in> set (initializationOrder (members s' q))"
    unfolding stored_def by auto
  then show ?thesis
  proof cases
    case 1
    with m[of this] have "slot_at s this key i = Some c"
      by (auto simp: slot_at_def empty_members_def)
    with 1(2) show ?thesis unfolding stored_def by blast
  next
    case 2
    with m[of q] have "v \<in> set (initializationOrder (members s q))"
      by (auto simp: empty_members_def)
    then show ?thesis unfolding stored_def by blast
  qed
qed

lemma createScope_grows:
  assumes "createScope s = (p, s')"
  shows "grows s s'"
proof -
  from assms have "next_address s' = next_address s" by (auto simp: createScope_def)
  with createScope_stored[OF assms] show ?thesis by (auto simp: grows_def)
qed

lemma api_step_grows: "api_step fs s s' \<Longrightarrow> grows s s'"
  by (induction rule: api_step.induct)
    (auto intro: createScope_grows evolves_grows dest: getService_evolves getServices_evolves)

lemma api_steps_grows: "(api_step fs)\<^sup>*\<^sup>* s s' \<Longrightarrow> grows s s'"
  by (induction rule: rtranclp_induct) (auto intro: grows_refl grows_trans api_step_grows)

lemma sound_stored:
  assumes "sound fs s" and "v \<in> stored s"
  shows "\<exists>obj. v = SharedPtr obj \<and> allocated s obj"
proof -
  from assms(2) consider this key i c where "slot_at s this key i = Some c" "serviceFuture c = Some v"
    | q where "v \<in> set (initializationOrder (members s q))"
    unfolding stored_def by auto
  then show ?thesis
  proof cases
    case 1
    with assms(1) show ?thesis unfolding sound_def by blast
  next
    case 2
    with assms(1) show ?thesis unfolding sound_def by blast
  qed
qed

lemma sound_held: "sound fs s \<Longrightarrow> obj \<in> held s \<Longrightarrow> allocated s obj"
  unfolding held_def by (auto dest!: sound_stored)

lemma grows_not_held:
  assumes "grows s s'" and "Object a T args \<notin> held s" and "a < next_address s"
  shows "Object a T args \<notin> held s'"
proof
  assume "Object a T args \<in> held s'"
  then obtain v where v: "v \<in> stored s'" "handle_object v = Some (Object a T args)"
    unfolding held_def by blast
  with assms(1) consider "v \<in> stored s" | o' where "v = SharedPtr o'" "made_since s o'"
    unfolding grows_def by blast
  then show False
  proof cases
    case 1
    with v(2) assms(2) show False unfolding held_def by blast
  next
    case 2
    with v(2) assms(3) show False by simp
  qed
qed

lemma held_next_address_update [simp]: "held (s\<lparr>next_address := n\<rparr>) = held s"
  by (simp add: held_def)

lemma root_record_creation [simp]: "root (record_creation this key i p t s) = root s"
  by (simp add: record_creation_def)

lemma two_scopes_reachable: "reachable fs two_scopes"
proof -
  have "api_step fs build (snd (createScope build))"
    by (rule api_step.scope[of build "fst (createScope build)"]) simp
  moreover have "api_step fs (snd (createScope build)) two_scopes"
    unfolding two_scopes_def
    by (rule api_step.scope[of _ "fst (createScope (snd (createScope build)))"]) simp
  ultimately show ?thesis
    unfolding reachable_def by (meson rtranclp.rtrancl_into_rtrancl rtranclp.rtrancl_refl)
qed

lemma gst_well_formed: "well_formed (collect gst_registrations)"
  by (rule collect_well_formed) (simp add: gst_registrations_def)

subsection \<open>The arrays fit the descriptions\<close>

lemma table_write_slot_length:
  "instances (members (write_slot this key i c s) q) key' = Some arr \<Longrightarrow>
     \<exists>arr'. instances (members s q) key' = Some arr' \<and> length arr = length arr'"
  by (auto simp: write_slot_def split: option.splits if_splits)

lemma keeps_fitting_refl: "keeps_fitting fs s s"
  by (simp add: keeps_fitting_def)

lemma keeps_fitting_trans: "keeps_fitting fs a b \<Longrightarrow> keeps_fitting fs b c \<Longrightarrow> keeps_fitting fs a c"
  by (simp add: keeps_fitting_def)

lemma in_order_keeps_fitting:
  assumes "\<And>x s r s'. x \<in> set xs \<Longrightarrow> f x s = (r, s') \<Longrightarrow> keeps_fitting fs s s'"
    and "in_order f xs s = (r, s')"
  shows "keeps_fitting fs s s'"
  by (rule in_order_preorder[where R = "keeps_fitting fs", OF keeps_fitting_refl keeps_fitting_trans assms])

lemma ServiceFactory_getService_keeps_fitting:
  assumes "provider_fitting fs sp" and "ServiceFactory_getService sp p prm s = (r, s')"
  shows "keeps_fitting fs s s'"
  using assms(2)
  by (cases rule: ServiceFactory_getService_cases)
    (use assms(1) in \<open>unfold provider_fitting_def, blast\<close>)+

lemma fitting_next_address [simp]: "fitting fs (s\<lparr>next_address := n\<rparr>) = fitting fs s"
  by (simp add: fitting_def)

lemma fitting_record_creation [simp]: "fitting fs (record_creation this key i p t s) = fitting fs s"
  by (simp add: fitting_def)

lemma fitting_emplace_back_order [simp]: "fitting fs (emplace_back_order this a s) = fitting fs s"
  by (simp add: fitting_def)

lemma fitting_write_slot: "fitting fs s \<Longrightarrow> fitting fs (write_slot this key i c s)"
  unfolding fitting_def by (metis table_write_slot_length)

lemma fitting_emplace_instances:
  "fitting fs s \<Longrightarrow> fs key = Some descs \<Longrightarrow> fitting fs (emplace_instances this key (length descs) s)"
  unfolding fitting_def by (auto simp: table_emplace_instances split: if_splits)

lemma call_create_keeps_fitting:
  assumes "provider_fitting fs sp" and "call_create f sp p s = (r, s')"
  shows "keeps_fitting fs s s'"
  using assms(2)
proof (cases rule: call_create_cases)
  case (failed e T ps)
  from in_order_keeps_fitting[OF _ failed(2)] ServiceFactory_getService_keeps_fitting[OF assms(1)]
  show ?thesis by blast
next
  case (created args s1 T ps)
  from in_order_keeps_fitting[OF _ created(2)] ServiceFactory_getService_keeps_fitting[OF assms(1)]
  have "keeps_fitting fs s s1" by blast
  with created(4) show ?thesis by (simp add: keeps_fitting_def)
next
  case (existing T n)
  then show ?thesis by (simp add: keeps_fitting_def)
qed

lemma getService_static_keeps_fitting:
  assumes sp: "provider_fitting fs sp" and descs: "fs key = Some descs"
    and run: "getService_static sp key descs this p index s = (r, s')"
  shows "keeps_fitting fs s s'"
  unfolding keeps_fitting_def
proof
  assume s: "fitting fs s"
  let ?s1 = "emplace_instances this key (length descs) s"
  have s1: "fitting fs ?s1" by (rule fitting_emplace_instances[OF s descs])
  from run show "fitting fs s'"
  proof (cases rule: getService_static_cases)
    case out_of_range
    with s show ?thesis by simp
  next
    case undefined
    with s1 show ?thesis by simp
  next
    case (failed c e)
    have "fitting fs (record_creation this key index p (type (descs ! index))
         (write_slot this key index (c\<lparr>initialized := True\<rparr>) ?s1))"
      using fitting_write_slot[OF s1] by simp
    with call_create_keeps_fitting[OF sp failed(5)] show ?thesis by (simp add: keeps_fitting_def)
  next
    case (constructed c a s3)
    have "fitting fs (record_creation this key index p (type (descs ! index))
         (write_slot this key index (c\<lparr>initialized := True\<rparr>) ?s1))"
      using fitting_write_slot[OF s1] by simp
    with call_create_keeps_fitting[OF sp constructed(5)] have "fitting fs s3"
      by (simp add: keeps_fitting_def)
    from fitting_write_slot[OF this] constructed(6) show ?thesis by simp
  next
    case (deadlock c)
    with s1 show ?thesis by simp
  next
    case (cached c a)
    with s1 show ?thesis by simp
  next
    case (transient_failed e)
    from call_create_keeps_fitting[OF sp transient_failed(3)] s
    show ?thesis by (simp add: keeps_fitting_def)
  next
    case (transient a)
    from call_create_keeps_fitting[OF sp transient(3)] s
    show ?thesis by (simp add: keeps_fitting_def)
  qed
qed

lemma dispatch_getService_keeps_fitting:
  assumes sp: "provider_fitting fs sp" and run: "dispatch_getService sp fs p ty s = (r, s')"
  shows "keeps_fitting fs s s'"
proof (cases "fs ty")
  case None
  with run show ?thesis
    by (cases p) (auto simp: ServiceProvider_getService_def ScopedServiceProvider_getService_def keeps_fitting_refl)
next
  case (Some descs)
  show ?thesis
  proof (cases p)
    case Root
    with run Some show ?thesis
      by (auto simp: ServiceProvider_getService_def intro: getService_static_keeps_fitting[OF sp Some])
  next
    case (Scope k)
    with run Some show ?thesis
      by (auto simp: ScopedServiceProvider_getService_def keeps_fitting_refl
          intro: getService_static_keeps_fitting[OF sp Some] split: list.splits if_splits)
  qed
qed

lemma dispatch_getServices_keeps_fitting:
  assumes sp: "provider_fitting fs sp" and run: "dispatch_getServices sp fs p ty s = (r, s')"
  shows "keeps_fitting fs s s'"
proof (cases "fs ty")
  case None
  with run show ?thesis
    by (cases p) (auto simp: ServiceProvider_getServices_def ScopedServiceProvider_getServices_def keeps_fitting_refl)
next
  case (Some descs)
  show ?thesis
  proof (cases p)
    case Root
    with run Some have io: "in_order (getService_static sp ty descs Root Root) [0..<length descs] s = (r, s')"
      by (simp add: ServiceProvider_getServices_def)
    show ?thesis
      by (rule in_order_keeps_fitting[OF _ io]) (auto intro: getService_static_keeps_fitting[OF sp Some])
  next
    case (Scope k)
    with run Some have io: "in_order (\<lambda>i. if type (descs ! i) = Scoped
                  then getService_static sp ty descs (Scope k) (Scope k) i
                  else getService_static sp ty descs Root (Scope k) i) [0..<length descs] s = (r, s')"
      by (simp add: ScopedServiceProvider_getServices_def)
    show ?thesis
      by (rule in_order_keeps_fitting[OF _ io])
        (auto intro: getService_static_keeps_fitting[OF sp Some] split: if_splits)
  qed
qed

lemma provider_fitting: "provider_fitting fs (provider n fs)"
proof (induction n)
  case 0
  show ?case by (simp add: provider_fitting_def keeps_fitting_refl)
next
  case (Suc n)
  show ?case
    unfolding provider_fitting_def
    using dispatch_getService_keeps_fitting[OF Suc] dispatch_getServices_keeps_fitting[OF Suc]
    by simp
qed

lemma getService_fitting: "getService n fs p ty s = (r, s') \<Longrightarrow> fitting fs s \<Longrightarrow> fitting fs s'"
  using dispatch_getService_keeps_fitting[OF provider_fitting[of fs n], of p ty s r s']
  by (simp add: getService_def keeps_fitting_def)

lemma getServices_fitting: "getServices n fs p ty s = (r, s') \<Longrightarrow> fitting fs s \<Longrightarrow> fitting fs s'"
  using dispatch_getServices_keeps_fitting[OF provider_fitting[of fs n], of p ty s r s']
  by (simp add: getServices_def keeps_fitting_def)

lemma createScope_fitting: "createScope s = (p, s') \<Longrightarrow> fitting fs s \<Longrightarrow> fitting fs s'"
  unfolding fitting_def
proof (intro allI impI)
  fix q key arr
  assume cs: "createScope s = (p, s')"
    and s: "\<forall>q key arr. instances (members s q) key = Some arr \<longrightarrow>
        (\<exists>descs. fs key = Some descs \<and> length arr = length descs)"
    and a: "instances (members s' q) key = Some arr"
  from createScope_members[OF cs, of q] a have "instances (members s q) key = Some arr"
    by (auto simp: empty_members_def)
  with s show "\<exists>descs. fs key = Some descs \<and> length arr = length descs" by blast
qed

lemma api_step_fitting: "api_step fs s s' \<Longrightarrow> fitting fs s \<Longrightarrow> fitting fs s'"
  by (induction rule: api_step.induct) (auto intro: getService_fitting getServices_fitting createScope_fitting)

lemma fitting_build: "fitting fs build"
  by (simp add: fitting_def members_build empty_members_def)

lemma reachable_fitting: "reachable fs s \<Longrightarrow> fitting fs s"
  unfolding reachable_def
  by (induction rule: rtranclp_induct) (auto intro: fitting_build api_step_fitting)

subsection \<open>Lookups return\<close>

lemma pending_steps [simp]:
  "pending (emplace_instances this key n s) k = pending s k"
  "pending (emplace_back_order this a s) k = pending s k"
  "pending (record_creation this key i p t s) k = pending s k"
  "pending (s\<lparr>next_address := m\<rparr>) k = pending s k"
  by (cases k; auto simp: pending_def slot_at_emplace_instances slot_at_no_table new_slot_def
      split: option.splits)+

lemma pending_write_slot:
  "pending (write_slot this key i c s) k =
     (if k = (this, key, i) \<and> slot_at s this key i \<noteq> None
      then initialized c \<and> serviceFuture c = None else pending s k)"
  by (cases k) (auto simp: pending_def slot_at_write_slot split: option.splits)

lemma calm_refl: "calm fs s s"
  by (simp add: calm_def)

lemma calm_trans: "calm fs a b \<Longrightarrow> calm fs b c \<Longrightarrow> calm fs a c"
  by (simp add: calm_def)

lemma ready_calm: "ready fs rank r s \<Longrightarrow> calm fs s s' \<Longrightarrow> ready fs rank r s'"
  unfolding ready_def calm_def by blast

lemma ready_mono: "ready fs rank r s \<Longrightarrow> r' \<le> r \<Longrightarrow> ready fs rank r' s"
  unfolding ready_def by (meson le_trans)

lemma answers_mono: "answers fs rank sp n \<Longrightarrow> m \<le> n \<Longrightarrow> answers fs rank sp m"
  unfolding answers_def by (meson less_le_trans)

lemma apply_convert_SharedPtr: "\<exists>a. apply_convert c (SharedPtr obj) = Inr a"
  by (cases c) simp_all

lemma apply_convert_ToReference:
  "apply_convert ToReference (SharedPtr obj) = Inr a \<Longrightarrow> a = ReferenceWrapper obj"
  by simp

lemma in_order_returns:
  assumes step: "\<And>x s. x \<in> set xs \<Longrightarrow> I s \<Longrightarrow> \<exists>y s'. f x s = (Inr y, s') \<and> calm fs s s' \<and> P x y"
    and keep: "\<And>s s'. I s \<Longrightarrow> calm fs s s' \<Longrightarrow> I s'"
    and "I s"
  shows "\<exists>ys s'. in_order f xs s = (Inr ys, s') \<and> calm fs s s' \<and> list_all2 P xs ys"
  using assms
proof (induction xs arbitrary: s)
  case Nil
  show ?case by (simp add: calm_refl)
next
  case (Cons x xs)
  from Cons.prems(1)[of x s] Cons.prems(3) obtain y s1 where
    first: "f x s = (Inr y, s1)" "calm fs s s1" "P x y" by auto
  have "\<exists>ys s'. in_order f xs s1 = (Inr ys, s') \<and> calm fs s1 s' \<and> list_all2 P xs ys"
  proof (rule Cons.IH)
    show "\<exists>y s'. f x' s = (Inr y, s') \<and> calm fs s s' \<and> P x' y" if "x' \<in> set xs" "I s" for x' s
      using that Cons.prems(1)[of x' s] by simp
    show "I s'" if "I s" "calm fs s s'" for s s' using that by (rule Cons.prems(2))
    show "I s1" using Cons.prems(3) first(2) by (rule Cons.prems(2))
  qed
  then obtain ys s' where "in_order f xs s1 = (Inr ys, s')" "calm fs s1 s'" "list_all2 P xs ys"
    by blast
  with first calm_trans[OF first(2)] show ?case by auto
qed

lemma cast_all_references:
  assumes "list_all2 (\<lambda>d a. \<exists>obj. apply_convert (convert d) (SharedPtr obj) = Inr a) descs as"
    and "\<forall>d \<in> set descs. convert d = ToReference"
  shows "\<exists>qs. cast_all any_cast_reference as = Inr qs"
  using assms by (induction descs as rule: list_all2_induct) auto

lemma cast_all_shared_ptrs:
  assumes "list_all2 (\<lambda>d a. \<exists>obj. apply_convert (convert d) (SharedPtr obj) = Inr a) descs as"
    and "\<forall>d \<in> set descs. convert d = ToSharedPtr"
  shows "\<exists>qs. cast_all any_cast_shared_ptr as = Inr qs"
  using assms by (induction descs as rule: list_all2_induct) auto

lemma ranked_descs:
  assumes "ranked fs rank" and "fs key = Some descs"
  shows "descs \<noteq> []" "length descs \<le> 2 ^ 64"
    and "d \<in> set descs \<Longrightarrow> convert d = conversion_for key"
    and "d \<in> set descs \<Longrightarrow> prm \<in> set (parameters (create d)) \<Longrightarrow> rank (requested_key prm) < rank key"
    and "d \<in> set descs \<Longrightarrow> prm \<in> set (parameters (create d)) \<Longrightarrow> requests_one prm
           \<Longrightarrow> fs (requested_key prm) \<noteq> None"
  using assms unfolding ranked_def by blast+

lemma answers_single:
  assumes "answers fs rank sp n" and "rank ty < n" and "ready fs rank (Suc (rank ty)) s"
  shows "\<exists>a s'. virt_getService sp p ty s = (Inr a, s') \<and> calm fs s s'
           \<and> (case fs ty of None \<Rightarrow> a = NoValue
               | Some descs \<Rightarrow> (\<exists>obj. apply_convert (convert (last descs)) (SharedPtr obj) = Inr a))"
proof -
  from assms(1) have "\<forall>p ty s. rank ty < n \<and> ready fs rank (Suc (rank ty)) s \<longrightarrow>
        (\<exists>a s'. virt_getService sp p ty s = (Inr a, s') \<and> calm fs s s'
           \<and> (case fs ty of None \<Rightarrow> a = NoValue
               | Some descs \<Rightarrow> (\<exists>obj. apply_convert (convert (last descs)) (SharedPtr obj) = Inr a)))"
    unfolding answers_def by (rule conjunct1)
  from this[rule_format, of ty s p] assms(2,3) show ?thesis by (rule_tac mp) auto
qed

lemma answers_multi:
  assumes "answers fs rank sp n" and "rank ty < n" and "ready fs rank (Suc (rank ty)) s"
  shows "\<exists>as s'. virt_getServices sp p ty s = (Inr as, s') \<and> calm fs s s'
           \<and> (case fs ty of None \<Rightarrow> as = []
               | Some descs \<Rightarrow>
                   list_all2 (\<lambda>d a. \<exists>obj. apply_convert (convert d) (SharedPtr obj) = Inr a) descs as)"
proof -
  from assms(1) have "\<forall>p ty s. rank ty < n \<and> ready fs rank (Suc (rank ty)) s \<longrightarrow>
        (\<exists>as s'. virt_getServices sp p ty s = (Inr as, s') \<and> calm fs s s'
           \<and> (case fs ty of None \<Rightarrow> as = []
               | Some descs \<Rightarrow>
                   list_all2 (\<lambda>d a. \<exists>obj. apply_convert (convert d) (SharedPtr obj) = Inr a) descs as))"
    unfolding answers_def by (rule conjunct2)
  from this[rule_format, of ty s p] assms(2,3) show ?thesis by (rule_tac mp) auto
qed


lemma ServiceFactory_getService_returns:
  assumes rk: "ranked fs rank" and ans: "answers fs rank sp n"
    and below: "rank (requested_key prm) < n"
    and one: "requests_one prm \<longrightarrow> fs (requested_key prm) \<noteq> None"
    and rd: "ready fs rank (Suc (rank (requested_key prm))) s"
  shows "\<exists>arg s'. ServiceFactory_getService sp p prm s = (Inr arg, s') \<and> calm fs s s'"
proof (cases prm)
  case (ByReference T)
  with one obtain descs where descs: "fs (TypeId T) = Some descs" by auto
  from answers_single[OF ans, of "TypeId T" s p] below rd ByReference obtain a s' where
    r: "virt_getService sp p (TypeId T) s = (Inr a, s')" "calm fs s s'"
    and sh: "case fs (TypeId T) of None \<Rightarrow> a = NoValue
               | Some descs \<Rightarrow> (\<exists>obj. apply_convert (convert (last descs)) (SharedPtr obj) = Inr a)"
    by auto
  from ranked_descs(1,3)[OF rk descs] have "convert (last descs) = ToReference" by simp
  with sh descs obtain obj where "a = ReferenceWrapper obj" by auto
  with r ByReference show ?thesis by simp
next
  case (BySharedPtr T)
  with one obtain descs where descs: "fs (SharedPtrTypeId T) = Some descs" by auto
  from answers_single[OF ans, of "SharedPtrTypeId T" s p] below rd BySharedPtr obtain a s' where
    r: "virt_getService sp p (SharedPtrTypeId T) s = (Inr a, s')" "calm fs s s'"
    and sh: "case fs (SharedPtrTypeId T) of None \<Rightarrow> a = NoValue
               | Some descs \<Rightarrow> (\<exists>obj. apply_convert (convert (last descs)) (SharedPtr obj) = Inr a)"
    by auto
  from ranked_descs(1,3)[OF rk descs] have "convert (last descs) = ToSharedPtr" by simp
  with sh descs obtain obj where "a = SharedPtr obj" by auto
  with r BySharedPtr show ?thesis by simp
next
  case (ReferenceVector T)
  from answers_multi[OF ans, of "TypeId T" s p] below rd ReferenceVector obtain as s' where
    r: "virt_getServices sp p (TypeId T) s = (Inr as, s')" "calm fs s s'"
    and sh: "case fs (TypeId T) of None \<Rightarrow> as = []
               | Some descs \<Rightarrow>
                   list_all2 (\<lambda>d a. \<exists>obj. apply_convert (convert d) (SharedPtr obj) = Inr a) descs as"
    by auto
  have "\<exists>qs. cast_all any_cast_reference as = Inr qs"
  proof (cases "fs (TypeId T)")
    case None
    with sh show ?thesis by simp
  next
    case (Some descs)
    with sh have "list_all2 (\<lambda>d a. \<exists>obj. apply_convert (convert d) (SharedPtr obj) = Inr a) descs as"
      by simp
    moreover from ranked_descs(3)[OF rk Some] have "\<forall>d \<in> set descs. convert d = ToReference" by simp
    ultimately show ?thesis by (rule cast_all_references)
  qed
  with r ReferenceVector show ?thesis by auto
next
  case (SharedPtrVector T)
  from answers_multi[OF ans, of "SharedPtrTypeId T" s p] below rd SharedPtrVector obtain as s' where
    r: "virt_getServices sp p (SharedPtrTypeId T) s = (Inr as, s')" "calm fs s s'"
    and sh: "case fs (SharedPtrTypeId T) of None \<Rightarrow> as = []
               | Some descs \<Rightarrow>
                   list_all2 (\<lambda>d a. \<exists>obj. apply_convert (convert d) (SharedPtr obj) = Inr a) descs as"
    by auto
  have "\<exists>qs. cast_all any_cast_shared_ptr as = Inr qs"
  proof (cases "fs (SharedPtrTypeId T)")
    case None
    with sh show ?thesis by simp
  next
    case (Some descs)
    with sh have "list_all2 (\<lambda>d a. \<exists>obj. apply_convert (convert d) (SharedPtr obj) = Inr a) descs as"
      by simp
    moreover from ranked_descs(3)[OF rk Some] have "\<forall>d \<in> set descs. convert d = ToSharedPtr" by simp
    ultimately show ?thesis by (rule cast_all_shared_ptrs)
  qed
  with r SharedPtrVector show ?thesis by auto
qed


lemma calm_next_address: "calm fs s (s\<lparr>next_address := Suc (next_address s)\<rparr>)"
  by (simp add: calm_def sound_next_address)

lemma call_create_returns:
  assumes rk: "ranked fs rank" and ans: "answers fs rank sp r"
    and params: "\<forall>prm \<in> set (parameters f). rank (requested_key prm) < r
                   \<and> (requests_one prm \<longrightarrow> fs (requested_key prm) \<noteq> None)"
    and rd: "ready fs rank r s"
  shows "\<exists>a s'. call_create f sp p s = (Inr a, s') \<and> calm fs s s'"
proof (cases f)
  case (ServiceFactory T ps)
  have "\<exists>args s1. in_order (ServiceFactory_getService sp p) ps s = (Inr args, s1) \<and> calm fs s s1
          \<and> list_all2 (\<lambda>x y. True) ps args"
  proof (rule in_order_returns[where I = "ready fs rank r"])
    fix prm s
    assume prm: "prm \<in> set ps" and rd: "ready fs rank r s"
    from params prm ServiceFactory have b: "rank (requested_key prm) < r"
      and o: "requests_one prm \<longrightarrow> fs (requested_key prm) \<noteq> None" by auto
    from ready_mono[OF rd, of "Suc (rank (requested_key prm))"] b
    have "ready fs rank (Suc (rank (requested_key prm))) s" by simp
    from ServiceFactory_getService_returns[OF rk ans b o this]
    show "\<exists>y s'. ServiceFactory_getService sp p prm s = (Inr y, s') \<and> calm fs s s' \<and> True" by simp
  next
    show "ready fs rank r s'" if "ready fs rank r s" "calm fs s s'" for s s'
      using that by (rule ready_calm)
  next
    show "ready fs rank r s" by (rule rd)
  qed
  then obtain args s1 where p: "in_order (ServiceFactory_getService sp p) ps s = (Inr args, s1)"
    "calm fs s s1" by blast
  from calm_trans[OF p(2) calm_next_address] p(1) ServiceFactory show ?thesis
    by (simp add: make_shared_def)
next
  case (ExistingService T n)
  then show ?thesis by (simp add: calm_refl)
qed

lemma slot_after_emplace:
  assumes "fitting fs s" and "fs key = Some descs" and "index < length descs"
  shows "\<exists>c. slot_at (emplace_instances this key (length descs) s) this key index = Some c"
proof (cases "instances (members s this) key")
  case None
  with assms(3) show ?thesis by (simp add: slot_at_emplace_instances)
next
  case (Some arr)
  with assms(1,2) have "length arr = length descs" unfolding fitting_def by fastforce
  moreover from Some have "emplace_instances this key (length descs) s = s"
    by (simp add: emplace_present)
  ultimately show ?thesis using Some assms(3) by (simp add: slot_at_def)
qed

lemma ready_record_creation [simp]:
  "ready fs rank r (record_creation this key i p t s) = ready fs rank r s"
proof -
  have "sound fs (record_creation this key i p t s) = sound fs s"
    by (simp add: sound_def)
  then show ?thesis by (simp add: ready_def)
qed

lemma ready_claim:
  assumes rd: "ready fs rank (Suc (rank key)) s" and descs: "fs key = Some descs"
    and slot: "slot_at (emplace_instances this key (length descs) s) this key index = Some c"
  shows "ready fs rank (rank key)
           (record_creation this key index p t
              (write_slot this key index (c\<lparr>initialized := True\<rparr>)
                 (emplace_instances this key (length descs) s)))"
proof -
  let ?s1 = "emplace_instances this key (length descs) s"
  let ?s2 = "write_slot this key index (c\<lparr>initialized := True\<rparr>) ?s1"
  from rd have s: "sound fs s" and f: "fitting fs s"
    and pend: "\<And>q k i. pending s (q, k, i) \<Longrightarrow> Suc (rank key) \<le> rank k"
    unfolding ready_def by blast+
  from s have "sound fs ?s1" by (rule sound_emplace_instances)
  from this slot have 1: "sound fs ?s2" by (rule sound_claim)
  from f descs have "fitting fs ?s1" by (rule fitting_emplace_instances)
  then have 2: "fitting fs ?s2" by (rule fitting_write_slot)
  have 3: "rank key \<le> rank k" if "pending ?s2 (q, k, i)" for q k i
  proof (cases "(q, k, i) = (this, key, index)")
    case True
    then show ?thesis by simp
  next
    case False
    with that have "pending s (q, k, i)" by (auto simp: pending_write_slot split: if_splits)
    from pend[OF this] show ?thesis by simp
  qed
  from 1 have "sound fs (record_creation this key index p t ?s2)" by (rule sound_record_creation)
  with 2 3 show ?thesis unfolding ready_def by simp
qed

lemma calm_publish:
  assumes cc: "calm fs s2 s3"
    and p2: "\<And>k. pending s2 k \<Longrightarrow> k \<noteq> (this, key, index) \<Longrightarrow> pending s k"
    and keeps: "sound fs s \<longrightarrow> sound fs s'" "fitting fs s \<longrightarrow> fitting fs s'"
    and s': "s' = emplace_back_order this a
                    (write_slot this key index \<lparr>initialized = True, serviceFuture = Some a\<rparr> s3)"
  shows "calm fs s s'"
proof -
  have "pending s k" if "pending s' k" for k
  proof -
    from that s' have "if k = (this, key, index) \<and> slot_at s3 this key index \<noteq> None
        then False else pending s3 k"
      by (auto simp: pending_write_slot split: if_splits)
    moreover have "\<not> pending s3 (this, key, index)" if "slot_at s3 this key index = None"
      using that by (simp add: pending_def)
    ultimately have "pending s3 k \<and> k \<noteq> (this, key, index)"
      by (cases "k = (this, key, index)"; cases "slot_at s3 this key index = None") auto
    moreover from cc have "pending s3 k \<longrightarrow> pending s2 k" unfolding calm_def by blast
    ultimately show ?thesis using p2 by blast
  qed
  with keeps show ?thesis by (simp add: calm_def)
qed

lemma getService_static_returns:
  assumes rk: "ranked fs rank" and ans: "answers fs rank sp (rank key)"
    and snd: "provider_sound fs sp" and fit: "provider_fitting fs sp"
    and descs: "fs key = Some descs" and idx: "index < length descs"
    and rd: "ready fs rank (Suc (rank key)) s"
  shows "\<exists>a s'. getService_static sp key descs this p index s = (Inr a, s') \<and> calm fs s s'
           \<and> (\<exists>obj. apply_convert (convert (descs ! index)) (SharedPtr obj) = Inr a)"
proof -
  let ?d = "descs ! index"
  let ?s1 = "emplace_instances this key (length descs) s"
  obtain r s' where run: "getService_static sp key descs this p index s = (r, s')"
    by (cases "getService_static sp key descs this p index s")
  from getService_static_keeps_sound[OF snd descs run]
  have ks: "sound fs s \<longrightarrow> sound fs s'" by (simp add: keeps_sound_def)
  from getService_static_keeps_fitting[OF fit descs run]
  have kf: "fitting fs s \<longrightarrow> fitting fs s'" by (simp add: keeps_fitting_def)
  from rd have s: "sound fs s" and f: "fitting fs s"
    and pend: "\<And>q k i. pending s (q, k, i) \<Longrightarrow> Suc (rank key) \<le> rank k"
    unfolding ready_def by blast+
  from idx have d: "?d \<in> set descs" by simp
  have params: "\<forall>prm \<in> set (parameters (create ?d)). rank (requested_key prm) < rank key
                   \<and> (requests_one prm \<longrightarrow> fs (requested_key prm) \<noteq> None)"
    using ranked_descs(4,5)[OF rk descs d] by blast
  have same: "pending ?s1 k = pending s k" for k by simp
  from run show ?thesis
  proof (cases rule: getService_static_cases)
    case out_of_range
    with idx show ?thesis by simp
  next
    case undefined
    with slot_after_emplace[OF f descs idx, of this] show ?thesis by simp
  next
    case (failed c e)
    from ready_claim[OF rd descs failed(3)]
    have "ready fs rank (rank key) (record_creation this key index p (type ?d)
            (write_slot this key index (c\<lparr>initialized := True\<rparr>) ?s1))" .
    from call_create_returns[OF rk ans params this, of p] failed(5) show ?thesis by simp
  next
    case (constructed c a s3)
    let ?s2 = "record_creation this key index p (type ?d)
                 (write_slot this key index (c\<lparr>initialized := True\<rparr>) ?s1)"
    from ready_claim[OF rd descs constructed(3)] have "ready fs rank (rank key) ?s2" .
    from call_create_returns[OF rk ans params this, of p] constructed(5)
    have cc: "calm fs ?s2 s3" by simp
    have p2: "pending s k" if "pending ?s2 k" "k \<noteq> (this, key, index)" for k
      using that by (simp add: pending_write_slot split: if_splits)
    from cc p2 ks kf constructed(6) have "calm fs s s'" by (rule calm_publish)
    moreover from call_create_result[OF constructed(5)] obtain obj where "a = SharedPtr obj"
      by blast
    moreover from apply_convert_SharedPtr[of "convert ?d" obj] obtain h where
      "apply_convert (convert ?d) (SharedPtr obj) = Inr h" by blast
    ultimately show ?thesis using run constructed(7) by auto
  next
    case (deadlock c)
    then have "pending ?s1 (this, key, index)" by (simp add: pending_def)
    then have "pending s (this, key, index)" by simp
    from pend[OF this] show ?thesis by simp
  next
    case (cached c a)
    from s have "sound fs ?s1" by (rule sound_emplace_instances)
    with cached(3,5) obtain obj where "a = SharedPtr obj" unfolding sound_def by blast
    moreover from apply_convert_SharedPtr[of "convert ?d" obj] obtain h where
      "apply_convert (convert ?d) (SharedPtr obj) = Inr h" by blast
    moreover have "calm fs s s'" using ks kf cached(7) by (simp add: calm_def)
    ultimately show ?thesis using run cached(6) by auto
  next
    case (transient_failed e)
    from rd have "ready fs rank (rank key) (record_creation this key index p (type ?d) s)"
      by (simp add: ready_mono)
    from call_create_returns[OF rk ans params this, of p] transient_failed(3) show ?thesis by simp
  next
    case (transient a)
    from rd have "ready fs rank (rank key) (record_creation this key index p (type ?d) s)"
      by (simp add: ready_mono)
    from call_create_returns[OF rk ans params this, of p] transient(3)
    have cc: "calm fs (record_creation this key index p (type ?d) s) s'" by simp
    have "calm fs s s'" using cc ks kf by (simp add: calm_def)
    moreover from call_create_result[OF transient(3)] obtain obj where "a = SharedPtr obj"
      by blast
    moreover from apply_convert_SharedPtr[of "convert ?d" obj] obtain h where
      "apply_convert (convert ?d) (SharedPtr obj) = Inr h" by blast
    ultimately show ?thesis using run transient(4) by auto
  qed
qed

lemma dispatch_getService_returns:
  assumes rk: "ranked fs rank" and ans: "answers fs rank sp (rank ty)"
    and snd: "provider_sound fs sp" and fit: "provider_fitting fs sp"
    and rd: "ready fs rank (Suc (rank ty)) s"
  shows "\<exists>a s'. dispatch_getService sp fs p ty s = (Inr a, s') \<and> calm fs s s'
           \<and> (case fs ty of None \<Rightarrow> a = NoValue
               | Some descs \<Rightarrow> (\<exists>obj. apply_convert (convert (last descs)) (SharedPtr obj) = Inr a))"
proof (cases "fs ty")
  case None
  then show ?thesis
    by (cases p) (simp_all add: ServiceProvider_getService_def ScopedServiceProvider_getService_def
        calm_refl)
next
  case (Some descs)
  from ranked_descs(1,2)[OF rk Some] have ne: "descs \<noteq> []" and le: "length descs \<le> 2 ^ 64" .
  from ne le have idx: "size_minus_one descs < length descs" by (rule size_minus_one_less)
  from ne le have "size_minus_one descs = length descs - 1" by (rule size_minus_one_eq)
  with ne have lst: "descs ! size_minus_one descs = last descs" by (simp add: last_conv_nth)
  have st: "\<exists>a s'. getService_static sp ty descs this q (size_minus_one descs) s = (Inr a, s')
              \<and> calm fs s s'
              \<and> (\<exists>obj. apply_convert (convert (last descs)) (SharedPtr obj) = Inr a)" for this q
    using getService_static_returns[OF rk ans snd fit Some idx rd, of this q] lst by simp
  from ne obtain d ds where cons: "descs = d # ds" by (cases descs) auto
  show ?thesis
  proof (cases p)
    case Root
    with Some st[of Root Root] show ?thesis by (simp add: ServiceProvider_getService_def)
  next
    case (Scope k)
    show ?thesis
    proof (cases "type d = Scoped")
      case True
      with Scope Some cons st[of "Scope k" "Scope k"] show ?thesis
        by (simp add: ScopedServiceProvider_getService_def)
    next
      case False
      with Scope Some cons st[of Root "Scope k"] show ?thesis
        by (simp add: ScopedServiceProvider_getService_def)
    qed
  qed
qed

lemma list_all2_upt:
  assumes "list_all2 (\<lambda>i a. P (descs ! i) a) [0..<length descs] as"
  shows "list_all2 P descs as"
  using assms by (auto simp: list_all2_conv_all_nth)

lemma dispatch_getServices_returns:
  assumes rk: "ranked fs rank" and ans: "answers fs rank sp (rank ty)"
    and snd: "provider_sound fs sp" and fit: "provider_fitting fs sp"
    and rd: "ready fs rank (Suc (rank ty)) s"
  shows "\<exists>as s'. dispatch_getServices sp fs p ty s = (Inr as, s') \<and> calm fs s s'
           \<and> (case fs ty of None \<Rightarrow> as = []
               | Some descs \<Rightarrow>
                   list_all2 (\<lambda>d a. \<exists>obj. apply_convert (convert d) (SharedPtr obj) = Inr a) descs as)"
proof (cases "fs ty")
  case None
  then show ?thesis
    by (cases p) (simp_all add: ServiceProvider_getServices_def ScopedServiceProvider_getServices_def
        calm_refl)
next
  case (Some descs)
  let ?P = "\<lambda>i a. \<exists>obj. apply_convert (convert (descs ! i)) (SharedPtr obj) = Inr a"
  have run: "\<exists>as s'. in_order f [0..<length descs] s = (Inr as, s') \<and> calm fs s s'
               \<and> list_all2 ?P [0..<length descs] as"
    if f: "\<And>i. \<exists>this q. f i = getService_static sp ty descs this q i" for f
  proof (rule in_order_returns[where I = "ready fs rank (Suc (rank ty))"])
    fix i t
    assume i: "i \<in> set [0..<length descs]" and t: "ready fs rank (Suc (rank ty)) t"
    from f[of i] obtain this q where "f i = getService_static sp ty descs this q i" by blast
    moreover from i have "i < length descs" by simp
    from getService_static_returns[OF rk ans snd fit Some this t, of this q]
    have "\<exists>a s'. getService_static sp ty descs this q i t = (Inr a, s') \<and> calm fs t s' \<and> ?P i a" .
    ultimately show "\<exists>y s'. f i t = (Inr y, s') \<and> calm fs t s' \<and> ?P i y" by simp
  next
    show "ready fs rank (Suc (rank ty)) s'" if "ready fs rank (Suc (rank ty)) s" "calm fs s s'"
      for s s' using that by (rule ready_calm)
  next
    show "ready fs rank (Suc (rank ty)) s" by (rule rd)
  qed
  show ?thesis
  proof (cases p)
    case Root
    from run[of "getService_static sp ty descs Root Root"] obtain as s' where
      "in_order (getService_static sp ty descs Root Root) [0..<length descs] s = (Inr as, s')"
      "calm fs s s'" "list_all2 ?P [0..<length descs] as" by blast
    with Root Some list_all2_upt[OF this(3)] show ?thesis
      by (simp add: ServiceProvider_getServices_def)
  next
    case (Scope k)
    let ?f = "\<lambda>i. if type (descs ! i) = Scoped
                  then getService_static sp ty descs (Scope k) (Scope k) i
                  else getService_static sp ty descs Root (Scope k) i"
    have "\<exists>this q. ?f i = getService_static sp ty descs this q i" for i by auto
    from run[of ?f, OF this] obtain as s' where
      "in_order ?f [0..<length descs] s = (Inr as, s')"
      "calm fs s s'" "list_all2 ?P [0..<length descs] as" by blast
    with Scope Some list_all2_upt[OF this(3)] show ?thesis
      by (simp add: ScopedServiceProvider_getServices_def)
  qed
qed

lemma provider_answers:
  assumes rk: "ranked fs rank"
  shows "answers fs rank (provider n fs) n"
proof (induction n)
  case 0
  show ?case by (simp add: answers_def)
next
  case (Suc n)
  have a: "answers fs rank (provider n fs) (rank ty)" if "rank ty < Suc n" for ty
    using Suc that by (simp add: answers_mono)
  show ?case
    unfolding answers_def
  proof (intro conjI allI impI)
    fix p ty s
    assume h: "rank ty < Suc n \<and> ready fs rank (Suc (rank ty)) s"
    from h have "answers fs rank (provider n fs) (rank ty)" by (simp add: a)
    moreover from h have "ready fs rank (Suc (rank ty)) s" by simp
    ultimately have "\<exists>a s'. dispatch_getService (provider n fs) fs p ty s = (Inr a, s') \<and> calm fs s s'
           \<and> (case fs ty of None \<Rightarrow> a = NoValue
               | Some descs \<Rightarrow> (\<exists>obj. apply_convert (convert (last descs)) (SharedPtr obj) = Inr a))"
      by (rule dispatch_getService_returns[OF rk _ provider_sound provider_fitting])
    then show "\<exists>a s'. virt_getService (provider (Suc n) fs) p ty s = (Inr a, s') \<and> calm fs s s'
           \<and> (case fs ty of None \<Rightarrow> a = NoValue
               | Some descs \<Rightarrow> (\<exists>obj. apply_convert (convert (last descs)) (SharedPtr obj) = Inr a))"
      by simp
  next
    fix p ty s
    assume h: "rank ty < Suc n \<and> ready fs rank (Suc (rank ty)) s"
    from h have "answers fs rank (provider n fs) (rank ty)" by (simp add: a)
    moreover from h have "ready fs rank (Suc (rank ty)) s" by simp
    ultimately have "\<exists>as s'. dispatch_getServices (provider n fs) fs p ty s = (Inr as, s') \<and> calm fs s s'
           \<and> (case fs ty of None \<Rightarrow> as = []
               | Some descs \<Rightarrow>
                   list_all2 (\<lambda>d a. \<exists>obj. apply_convert (convert d) (SharedPtr obj) = Inr a) descs as)"
      by (rule dispatch_getServices_returns[OF rk _ provider_sound provider_fitting])
    then show "\<exists>as s'. virt_getServices (provider (Suc n) fs) p ty s = (Inr as, s') \<and> calm fs s s'
           \<and> (case fs ty of None \<Rightarrow> as = []
               | Some descs \<Rightarrow>
                   list_all2 (\<lambda>d a. \<exists>obj. apply_convert (convert d) (SharedPtr obj) = Inr a) descs as)"
      by simp
  qed
qed

lemma settled_ready: "sound fs s \<Longrightarrow> fitting fs s \<Longrightarrow> settled s \<Longrightarrow> ready fs rank r s"
  by (simp add: ready_def settled_def)

lemma calm_settled: "calm fs s s' \<Longrightarrow> settled s \<Longrightarrow> settled s'"
  unfolding calm_def settled_def by blast

lemma getService_returns:
  assumes rk: "ranked fs rank" and n: "rank ty \<le> n"
    and s: "sound fs s" "fitting fs s" "settled s"
  shows "\<exists>a s'. getService n fs p ty s = (Inr a, s') \<and> settled s'
           \<and> (case fs ty of None \<Rightarrow> a = NoValue
               | Some descs \<Rightarrow> (\<exists>obj. apply_convert (convert (last descs)) (SharedPtr obj) = Inr a))"
proof -
  from provider_answers[OF rk, of n] n have "answers fs rank (provider n fs) (rank ty)"
    by (rule answers_mono)
  from dispatch_getService_returns[OF rk this provider_sound provider_fitting
      settled_ready[OF s], of p]
  show ?thesis using calm_settled s(3) unfolding getService_def by blast
qed

lemma getServices_returns:
  assumes rk: "ranked fs rank" and n: "rank ty \<le> n"
    and s: "sound fs s" "fitting fs s" "settled s"
  shows "\<exists>as s'. getServices n fs p ty s = (Inr as, s') \<and> settled s'
           \<and> (case fs ty of None \<Rightarrow> as = []
               | Some descs \<Rightarrow>
                   list_all2 (\<lambda>d a. \<exists>obj. apply_convert (convert d) (SharedPtr obj) = Inr a) descs as)"
proof -
  from provider_answers[OF rk, of n] n have "answers fs rank (provider n fs) (rank ty)"
    by (rule answers_mono)
  from dispatch_getServices_returns[OF rk this provider_sound provider_fitting
      settled_ready[OF s], of p]
  show ?thesis using calm_settled s(3) unfolding getServices_def by blast
qed

subsection \<open>Evaluating lookups\<close>

lemmas evaluation =
  getService_def getServices_def ServiceProvider_getService_def ServiceProvider_getServices_def
  ScopedServiceProvider_getService_def ScopedServiceProvider_getServices_def getService_static_def
  emplace_instances_def write_slot_def emplace_back_order_def slot_at_def record_creation_def
  make_shared_def size_minus_one_def new_slot_def build_def empty_members_def createScope_def Let_def

lemma provider_numeral:
  "provider (numeral k) fs =
     \<lparr>virt_getService = dispatch_getService (provider (pred_numeral k) fs) fs,
      virt_getServices = dispatch_getServices (provider (pred_numeral k) fs) fs\<rparr>"
  by (simp add: numeral_eq_Suc)

lemma reachable_build: "reachable fs build"
  by (simp add: reachable_def)

lemma xyz_first_lookup:
  "getService 1 (collect xyz_registrations) Root (TypeId ''I'') build =
     (Inr (ReferenceWrapper (Object 0 ''Z'' [])), xyz_after_lookup)"
  by (simp add: xyz_after_lookup_def xyz_I evaluation)

lemma xyz_second_lookup:
  "fst (getService 1 (collect xyz_registrations) Root (TypeId ''I'') xyz_after_lookup) =
     Inr (ReferenceWrapper (Object 0 ''Z'' []))"
  by (simp add: xyz_after_lookup_def xyz_I evaluation)

lemma xyz_history:
  "created xyz_after_lookup =
     [\<lparr>c_owner = Root, c_key = TypeId ''I'', c_index = 2, c_provider = Root, c_type = Singleton\<rparr>]"
  by (simp add: xyz_after_lookup_def xyz_I evaluation)


subsection \<open>Registration order\<close>

lemma register_description:
  "register fs r = emplace_back_description (fst (description_of r)) (snd (description_of r)) fs"
  by (cases r)
    (simp_all add: addSingleton_def addScoped_def addTransient_def addService_def
      addSingleton_F_def addScoped_F_def addSingleton_existing_def addTransient_F_def addService_F_def)

lemma foldl_register_lookup:
  "foldl register fs rs ty =
     (if registered_for ty rs = [] then fs ty
      else Some ((case fs ty of None \<Rightarrow> [] | Some ds \<Rightarrow> ds) @ registered_for ty rs))"
proof (induction rs arbitrary: fs)
  case Nil
  show ?case by (simp add: registered_for_def)
next
  case (Cons r rs)
  show ?case
    unfolding foldl_Cons Cons.IH
    by (auto simp: register_description emplace_back_description_def registered_for_def
        split: option.splits)
qed

lemma collect_lookup:
  "collect rs ty = (if registered_for ty rs = [] then None else Some (registered_for ty rs))"
  by (simp add: collect_def foldl_register_lookup)

subsection \<open>Registrations without a cycle\<close>

lemma conversion_of_description: "convert (snd (description_of r)) = conversion_for (fst (description_of r))"
  by (cases r) simp_all

lemma registered_for_member:
  "d \<in> set (registered_for ty rs) \<Longrightarrow> \<exists>r \<in> set rs. fst (description_of r) = ty \<and> d = snd (description_of r)"
  by (auto simp: registered_for_def)

lemma registered_for_nonempty:
  "r \<in> set rs \<Longrightarrow> registered_for (fst (description_of r)) rs \<noteq> []"
  by (auto simp: registered_for_def filter_empty_conv)

lemma acyclic_ranked:
  assumes ac: "acyclic rank rs" and len: "length rs < 2 ^ 64"
  shows "ranked (collect rs) rank"
  unfolding ranked_def
proof (intro allI impI)
  fix key descs
  assume look: "collect rs key = Some descs"
  from collect_nonempty[OF look] len have 1: "descs \<noteq> []" "length descs \<le> 2 ^ 64" by simp_all
  from look have descs: "descs = registered_for key rs"
    by (simp add: collect_lookup split: if_splits)
  have 2: "convert d = conversion_for key
           \<and> (\<forall>prm \<in> set (parameters (create d)).
                 rank (requested_key prm) < rank key
                 \<and> (requests_one prm \<longrightarrow> collect rs (requested_key prm) \<noteq> None))"
    if "d \<in> set descs" for d
  proof -
    from that descs registered_for_member obtain r where
      r: "r \<in> set rs" "fst (description_of r) = key" "d = snd (description_of r)" by blast
    from r(2,3) conversion_of_description[of r] have c: "convert d = conversion_for key" by simp
    have "rank (requested_key prm) < rank key
            \<and> (requests_one prm \<longrightarrow> collect rs (requested_key prm) \<noteq> None)"
      if prm: "prm \<in> set (parameters (create d))" for prm
    proof -
      from ac r(1) prm r(3) have a: "rank (requested_key prm) < rank (fst (description_of r))"
        and b: "requests_one prm \<longrightarrow> (\<exists>r' \<in> set rs. fst (description_of r') = requested_key prm)"
        unfolding acyclic_def by blast+
      have "collect rs (requested_key prm) \<noteq> None" if "requests_one prm"
      proof -
        from b that obtain r' where "r' \<in> set rs" "fst (description_of r') = requested_key prm"
          by blast
        from registered_for_nonempty[OF this(1)] this(2) show ?thesis
          by (simp add: collect_lookup)
      qed
      with a r(2) show ?thesis by simp
    qed
    with c show ?thesis by blast
  qed
  from 1 2 show "descs \<noteq> [] \<and> length descs \<le> 2 ^ 64
        \<and> (\<forall>d \<in> set descs. convert d = conversion_for key
              \<and> (\<forall>prm \<in> set (parameters (create d)).
                    rank (requested_key prm) < rank key
                    \<and> (requests_one prm \<longrightarrow> collect rs (requested_key prm) \<noteq> None)))"
    by blast
qed

subsection \<open>The provider handed to the factories\<close>


lemma gst_lookups:
  "collect gst_registrations (TypeId ''G'') =
     Some [\<lparr>create = ServiceFactory ''G'' [], convert = ToReference, type = Singleton\<rparr>]"
  "collect gst_registrations (TypeId ''S'') =
     Some [\<lparr>create = ServiceFactory ''S'' [ByReference ''G''], convert = ToReference, type = Scoped\<rparr>]"
  "collect gst_registrations (SharedPtrTypeId ''T'') =
     Some [\<lparr>create = ServiceFactory ''T'' [ByReference ''S''], convert = ToSharedPtr, type = Transient\<rparr>]"
  by (simp_all add: gst_registrations_def collect_def addSingleton_def addScoped_def addTransient_def
      addService_def emplace_back_description_def)

lemma two_scopes_eq:
  "two_scopes = \<lparr>root = empty_members, scopes = (\<lambda>_. empty_members), next_scope = 2,
            next_address = 0, created = []\<rparr>"
  by (simp add: two_scopes_def createScope_def build_def fun_eq_iff numeral_2_eq_2)

lemma gst_first:
  "getService 3 (collect gst_registrations) (Scope 0) (SharedPtrTypeId ''T'') two_scopes =
     (Inr (SharedPtr (Object 2 ''T'' [RefArg (Object 1 ''S'' [RefArg (Object 0 ''G'' [])])])), gst_after_first)"
  by (simp add: gst_after_first_def two_scopes_eq gst_lookups evaluation provider_numeral)


lemma gst_second:
  "getService 3 (collect gst_registrations) (Scope 1) (SharedPtrTypeId ''T'') gst_after_first =
     (Inr (SharedPtr (Object 4 ''T'' [RefArg (Object 3 ''S'' [RefArg (Object 0 ''G'' [])])])), gst_after_second)"
  by (simp add: gst_after_second_def gst_after_first_def two_scopes_eq gst_lookups evaluation provider_numeral)




subsection \<open>Which description a lookup resolves\<close>

lemma apply_convert_object: "apply_convert c (SharedPtr obj) = Inr a \<Longrightarrow> handle_object a = Some obj"
  by (cases c) auto

lemma getService_static_result_type:
  assumes sp: "provider_sound fs sp" and s: "sound fs s" and descs: "fs key = Some descs"
    and run: "getService_static sp key descs this p index s = (Inr a, s')"
  shows "\<exists>obj. handle_object a = Some obj
           \<and> dynamic_type obj = implementation (create (descs ! index))"
  using run
proof (cases rule: getService_static_cases)
  case (constructed c v s3)
  from constructed(7) have "apply_convert (convert (descs ! index)) v = Inr a" by simp
  with call_create_result[OF constructed(5)] show ?thesis
    by (auto dest: apply_convert_object)
next
  case (cached c v)
  have "sound fs (emplace_instances this key (length descs) s)"
    by (rule sound_emplace_instances[OF s])
  with cached(3,5) descs obtain obj where "v = SharedPtr obj"
    "dynamic_type obj = implementation (create (descs ! index))"
    unfolding sound_def by fastforce
  moreover from cached(6) have "apply_convert (convert (descs ! index)) v = Inr a" by simp
  ultimately show ?thesis by (auto dest: apply_convert_object)
next
  case (transient v)
  from transient(4) have "apply_convert (convert (descs ! index)) v = Inr a" by simp
  with call_create_result[OF transient(3)] show ?thesis
    by (auto dest: apply_convert_object)
qed simp_all

lemma getService_last:
  assumes wf: "well_formed fs" and descs: "fs ty = Some descs"
  shows "getService n fs p ty s =
           getService_static (provider n fs) ty descs (single_lookup_owner descs p) p (length descs - 1) s"
proof -
  from wf descs have ne: "descs \<noteq> []" and le: "length descs \<le> 2 ^ 64"
    by (auto simp: well_formed_def)
  from ne obtain d ds where ds: "descs = d # ds" by (cases descs) auto
  have idx: "size_minus_one descs = length descs - 1" by (rule size_minus_one_eq[OF ne le])
  show ?thesis
  proof (cases p)
    case Root
    with descs idx show ?thesis by (simp add: getService_def ServiceProvider_getService_def)
  next
    case (Scope k)
    with descs idx ds show ?thesis
      by (simp add: getService_def ScopedServiceProvider_getService_def)
  qed
qed

lemma getService_result_type:
  assumes wf: "well_formed fs" and descs: "fs ty = Some descs" and s: "sound fs s"
    and run: "getService n fs p ty s = (Inr a, s')"
  shows "\<exists>obj. handle_object a = Some obj \<and> dynamic_type obj = implementation (create (last descs))"
proof -
  from wf descs have ne: "descs \<noteq> []" by (auto simp: well_formed_def)
  from run have "getService_static (provider n fs) ty descs (single_lookup_owner descs p) p (length descs - 1) s
      = (Inr a, s')"
    by (simp add: getService_last[OF wf descs])
  from getService_static_result_type[OF provider_sound[of fs n] s descs this] ne show ?thesis
    by (simp add: last_conv_nth)
qed

lemma getServices_result_types:
  assumes descs: "fs ty = Some descs" and s: "sound fs s"
    and run: "getServices n fs p ty s = (Inr as, s')"
  shows "map (\<lambda>a. map_option dynamic_type (handle_object a)) as =
           map (\<lambda>d. Some (implementation (create d))) descs"
proof -
  let ?f = "\<lambda>i. getService_static (provider n fs) ty descs (multi_lookup_owner descs p i) p i"
  let ?R = "keeps_sound fs"
  from run have io: "in_order ?f [0..<length descs] s = (Inr as, s')"
    using getServices_in_order_form[where fs = fs and ty = ty and descs = descs, OF descs, of n p s]
    by simp
  have "length as = length [0..<length descs] \<and>
         (\<forall>j < length [0..<length descs]. \<exists>t t'. ?R s t
            \<and> ?f ([0..<length descs] ! j) t = (Inr (as ! j), t') \<and> ?R t' s')"
  proof (rule in_order_nth[where R = ?R and f = ?f])
    show "?R a a" for a by (rule keeps_sound_refl)
    show "?R a c" if "?R a b" "?R b c" for a b c using that by (rule keeps_sound_trans)
    show "?R t t'" if "x \<in> set [0..<length descs]" "?f x t = (r, t')" for x t r t'
      using getService_static_keeps_sound[OF provider_sound[of fs n] descs] that by blast
    show "in_order ?f [0..<length descs] s = (Inr as, s')" by (rule io)
  qed
  then have len: "length as = length descs"
    and nth: "\<forall>j < length descs. \<exists>t t'. ?R s t \<and> ?f j t = (Inr (as ! j), t')"
    by (simp, fastforce)
  show ?thesis
  proof (rule nth_equalityI)
    show "length (map (\<lambda>a. map_option dynamic_type (handle_object a)) as) =
          length (map (\<lambda>d. Some (implementation (create d))) descs)"
      using len by simp
  next
    fix i
    assume "i < length (map (\<lambda>a. map_option dynamic_type (handle_object a)) as)"
    then have i: "i < length descs" using len by simp
    with nth obtain t t' where t: "?R s t" "?f i t = (Inr (as ! i), t')" by blast
    from t(1) s have "sound fs t" by (simp add: keeps_sound_def)
    from getService_static_result_type[OF provider_sound[of fs n] this descs t(2)]
    show "map (\<lambda>a. map_option dynamic_type (handle_object a)) as ! i =
          map (\<lambda>d. Some (implementation (create d))) descs ! i"
      using i len by auto
  qed
qed

lemma xyz_multi_lookup:
  "fst (getServices 1 (collect xyz_registrations) Root (TypeId ''I'') build) =
     Inr [ReferenceWrapper (Object 0 ''X'' []), ReferenceWrapper (Object 1 ''Y'' []),
          ReferenceWrapper (Object 2 ''Z'' [])]"
  by (simp add: xyz_I evaluation)

lemma xyz_multi_after_single:
  "fst (getServices 1 (collect xyz_registrations) Root (TypeId ''I'') xyz_after_lookup) =
     Inr [ReferenceWrapper (Object 1 ''X'' []), ReferenceWrapper (Object 2 ''Y'' []),
          ReferenceWrapper (Object 0 ''Z'' [])]"
  by (simp add: xyz_after_lookup_def xyz_I evaluation)


lemma apply_convert_same:
  "apply_convert c v = Inr a \<Longrightarrow> apply_convert c (SharedPtr obj) = Inr a \<Longrightarrow> v = SharedPtr obj"
  by (cases c; cases v) auto

lemma call_create_created:
  assumes "call_create f (provider n fs) p s = (r, s')"
  shows "\<exists>new. created s' = created s @ new"
  using call_create_accounted[OF provider_accounted assms] by (rule accountedE) blast

lemma getService_static_first_call:
  assumes run: "getService_static (provider n fs) key descs this p index s = (r, s')"
  shows "created s' = created s
       \<or> (\<exists>rest. created s' = created s @
             \<lparr>c_owner = this, c_key = key, c_index = index, c_provider = p,
               c_type = type (descs ! index)\<rparr> # rest)"
  using run
proof (cases rule: getService_static_cases)
  case (failed c e)
  from call_create_created[OF failed(5)] show ?thesis by auto
next
  case (constructed c a s3)
  from call_create_created[OF constructed(5)] constructed(6) show ?thesis by auto
next
  case (transient_failed e)
  from call_create_created[OF transient_failed(3)] show ?thesis by auto
next
  case (transient a)
  from call_create_created[OF transient(3)] show ?thesis by auto
qed simp_all

lemma getService_answer:
  assumes rk: "ranked fs rank" and n: "rank ty \<le> n" and descs: "fs ty = Some descs"
    and reach: "reachable fs s" and st: "settled s"
  shows "\<exists>a s' obj. getService n fs p ty s = (Inr a, s') \<and> settled s'
           \<and> apply_convert (convert (last descs)) (SharedPtr obj) = Inr a
           \<and> dynamic_type obj = implementation (create (last descs))
           \<and> (type (last descs) \<noteq> Transient \<longrightarrow>
                published s' (single_lookup_owner descs p) ty (length descs - 1) (SharedPtr obj))"
proof -
  note snd = reachable_sound[OF reach] and fit = reachable_fitting[OF reach]
  from rk descs have wf: "descs \<noteq> []" "length descs \<le> 2 ^ 64" by (rule ranked_descs)+
  then have idx: "size_minus_one descs = length descs - 1" by (rule size_minus_one_eq)
  with wf have lst: "descs ! size_minus_one descs = last descs" by (simp add: last_conv_nth)
  from getService_returns[OF rk n snd fit st, of p] descs obtain a s' obj where
    run: "getService n fs p ty s = (Inr a, s')" and s': "settled s'"
    and a: "apply_convert (convert (last descs)) (SharedPtr obj) = Inr a" by auto
  from ranked_descs(1,2)[OF rk] have "well_formed fs" unfolding well_formed_def by blast
  from getService_result_type[OF this descs snd run] apply_convert_object[OF a]
  have ty: "dynamic_type obj = implementation (create (last descs))" by auto
  have "published s' (single_lookup_owner descs p) ty (length descs - 1) (SharedPtr obj)"
    if "type (last descs) \<noteq> Transient"
  proof -
    from that lst have "type (descs ! size_minus_one descs) \<noteq> Transient" by simp
    from getService_published[OF run descs this] obtain v where
      v: "published s' (single_lookup_owner descs p) ty (size_minus_one descs) v"
      "apply_convert (convert (descs ! size_minus_one descs)) v = Inr a" by blast
    from v(2) lst a have "v = SharedPtr obj" by (simp add: apply_convert_same)
    with v(1) idx show ?thesis by simp
  qed
  with run s' a ty show ?thesis by blast
qed

lemma getServices_answer:
  assumes rk: "ranked fs rank" and n: "rank ty \<le> n" and descs: "fs ty = Some descs"
    and reach: "reachable fs s" and st: "settled s"
  shows "\<exists>as s'. getServices n fs p ty s = (Inr as, s') \<and> settled s'
           \<and> length as = length descs
           \<and> (\<forall>i < length descs. \<exists>obj.
                 apply_convert (convert (descs ! i)) (SharedPtr obj) = Inr (as ! i)
                 \<and> dynamic_type obj = implementation (create (descs ! i))
                 \<and> (type (descs ! i) \<noteq> Transient \<longrightarrow>
                      published s' (multi_lookup_owner descs p i) ty i (SharedPtr obj)))"
proof -
  note snd = reachable_sound[OF reach] and fit = reachable_fitting[OF reach]
  from getServices_returns[OF rk n snd fit st, of p] descs obtain as s' where
    run: "getServices n fs p ty s = (Inr as, s')" and s': "settled s'"
    and as: "list_all2 (\<lambda>d a. \<exists>obj. apply_convert (convert d) (SharedPtr obj) = Inr a) descs as"
    by auto
  from as have len: "length as = length descs" by (simp add: list_all2_lengthD)
  note types = getServices_result_types[OF descs snd run]
  have "\<exists>obj. apply_convert (convert (descs ! i)) (SharedPtr obj) = Inr (as ! i)
          \<and> dynamic_type obj = implementation (create (descs ! i))
          \<and> (type (descs ! i) \<noteq> Transient \<longrightarrow>
               published s' (multi_lookup_owner descs p i) ty i (SharedPtr obj))"
    if i: "i < length descs" for i
  proof -
    from as i obtain obj where a: "apply_convert (convert (descs ! i)) (SharedPtr obj) = Inr (as ! i)"
      by (auto simp: list_all2_conv_all_nth)
    from types i len
    have "map_option dynamic_type (handle_object (as ! i)) = Some (implementation (create (descs ! i)))"
      by (metis length_map nth_map)
    with apply_convert_object[OF a] have ty: "dynamic_type obj = implementation (create (descs ! i))"
      by simp
    have "published s' (multi_lookup_owner descs p i) ty i (SharedPtr obj)"
      if "type (descs ! i) \<noteq> Transient"
    proof -
      from getServices_published[OF run descs i that] obtain v where
        v: "published s' (multi_lookup_owner descs p i) ty i v"
        "apply_convert (convert (descs ! i)) v = Inr (as ! i)" by blast
      from v(2) a have "v = SharedPtr obj" by (rule apply_convert_same)
      with v(1) show ?thesis by simp
    qed
    with a ty show ?thesis by blast
  qed
  with run s' len show ?thesis by blast
qed

lemma settled_build: "settled build"
  by (simp add: settled_def pending_def slot_at_empty_members[OF members_build])

lemma logged_lookups:
  "collect logged_registrations (TypeId ''I'') =
     Some [\<lparr>create = ServiceFactory ''X'' [ByReference ''L''], convert = ToReference, type = Singleton\<rparr>,
           \<lparr>create = ServiceFactory ''Y'' [], convert = ToReference, type = Singleton\<rparr>,
           \<lparr>create = ServiceFactory ''Z'' [ByReference ''L''], convert = ToReference, type = Singleton\<rparr>]"
  "collect logged_registrations (TypeId ''L'') =
     Some [\<lparr>create = ServiceFactory ''L'' [], convert = ToReference, type = Singleton\<rparr>]"
  by (simp_all add: collect_lookup registered_for_def logged_registrations_def)

lemma logged_multi_lookup:
  "fst (getServices 2 (collect logged_registrations) Root (TypeId ''I'') build) =
     Inr [ReferenceWrapper (Object 1 ''X'' [RefArg (Object 0 ''L'' [])]),
          ReferenceWrapper (Object 2 ''Y'' []),
          ReferenceWrapper (Object 3 ''Z'' [RefArg (Object 0 ''L'' [])])]"
  by (simp add: logged_lookups evaluation provider_numeral)

lemma logged_single_lookup:
  "fst (getService 2 (collect logged_registrations) Root (TypeId ''I'') build) =
     Inr (ReferenceWrapper (Object 1 ''Z'' [RefArg (Object 0 ''L'' [])]))"
  by (simp add: logged_lookups evaluation provider_numeral)

lemma logged_acyclic: "acyclic logged_rank logged_registrations"
  by (simp add: acyclic_def logged_rank_def logged_registrations_def)

text \<open>
  Claim C2. Let \<open>descs\<close> be the descriptions that the registrations \<open>rs\<close> add for the key
  \<open>ty\<close>, in the order of the registration calls, and let there be \<open>n \<ge> 1\<close> of them. The
  built collection holds exactly this list for the key. The single lookup is the
  resolution of the description at index \<open>n - 1\<close>, and the multi lookup is the resolution
  of the indices \<open>0, ..., n - 1\<close> one after the other. Whatever a single lookup returns,
  the first factory call it makes, if it makes any, is the call of the description at
  index \<open>n - 1\<close>. In a reachable state a handle that a single lookup returns refers to
  an object of the implementation registered last, and the handles of a multi lookup
  refer to objects of the registered implementations in registration order. When the
  registrations have no dependency cycle, every parameter that asks for one service asks
  for a registered key, the nesting bound is large enough and no construction has failed
  or is under way, both lookups do return: the single lookup the converted instance of
  the last description, which is the instance published in the slot \<open>n - 1\<close> if the
  description is cached, and the multi lookup one handle for each description, at the
  position of the description. With \<open>X\<close>, \<open>Y\<close>, \<open>Z\<close> registered for \<open>I\<close> in this
  order, the multi lookup returns \<open>[X, Y, Z]\<close> and the single lookup returns \<open>Z\<close>, the
  same instance as the last element of a later multi lookup.
\<close>

theorem lookup_selects_descriptions:
  assumes "length rs < 2 ^ 64" and "descs = registered_for ty rs" and "descs \<noteq> []"
  shows "collect rs ty = Some descs
       \<and> getService n (collect rs) p ty s =
           getService_static (provider n (collect rs)) ty descs (single_lookup_owner descs p) p
             (length descs - 1) s
       \<and> getServices n (collect rs) p ty s =
           in_order (\<lambda>i. getService_static (provider n (collect rs)) ty descs
                            (multi_lookup_owner descs p i) p i)
             [0..<length descs] s
       \<and> (\<forall>r s'. getService n (collect rs) p ty s = (r, s') \<longrightarrow>
             created s' = created s
             \<or> (\<exists>rest. created s' = created s @
                   \<lparr>c_owner = single_lookup_owner descs p, c_key = ty, c_index = length descs - 1,
                     c_provider = p, c_type = type (last descs)\<rparr> # rest))
       \<and> (reachable (collect rs) s \<longrightarrow>
            (\<forall>a s'. getService n (collect rs) p ty s = (Inr a, s') \<longrightarrow>
               (\<exists>obj. handle_object a = Some obj
                  \<and> dynamic_type obj = implementation (create (last descs))))
            \<and> (\<forall>as s'. getServices n (collect rs) p ty s = (Inr as, s') \<longrightarrow>
                 map (\<lambda>a. map_option dynamic_type (handle_object a)) as =
                   map (\<lambda>d. Some (implementation (create d))) descs))
       \<and> (acyclic rank rs \<and> rank ty \<le> n \<and> reachable (collect rs) s \<and> settled s \<longrightarrow>
            (\<exists>a s' obj. getService n (collect rs) p ty s = (Inr a, s') \<and> settled s'
               \<and> apply_convert (convert (last descs)) (SharedPtr obj) = Inr a
               \<and> dynamic_type obj = implementation (create (last descs))
               \<and> (type (last descs) \<noteq> Transient \<longrightarrow>
                    published s' (single_lookup_owner descs p) ty (length descs - 1) (SharedPtr obj)))
            \<and> (\<exists>as s'. getServices n (collect rs) p ty s = (Inr as, s') \<and> settled s'
                 \<and> length as = length descs
                 \<and> (\<forall>i < length descs. \<exists>obj.
                       apply_convert (convert (descs ! i)) (SharedPtr obj) = Inr (as ! i)
                       \<and> dynamic_type obj = implementation (create (descs ! i))
                       \<and> (type (descs ! i) \<noteq> Transient \<longrightarrow>
                            published s' (multi_lookup_owner descs p i) ty i (SharedPtr obj)))))
       \<and> fst (getServices 1 (collect xyz_registrations) Root (TypeId ''I'') build) =
           Inr [ReferenceWrapper (Object 0 ''X'' []), ReferenceWrapper (Object 1 ''Y'' []),
                ReferenceWrapper (Object 2 ''Z'' [])]
       \<and> fst (getService 1 (collect xyz_registrations) Root (TypeId ''I'') build) =
           Inr (ReferenceWrapper (Object 0 ''Z'' []))
       \<and> fst (getServices 1 (collect xyz_registrations) Root (TypeId ''I'') xyz_after_lookup) =
           Inr [ReferenceWrapper (Object 1 ''X'' []), ReferenceWrapper (Object 2 ''Y'' []),
                ReferenceWrapper (Object 0 ''Z'' [])]"
proof -
  let ?fs = "collect rs"
  from assms(2,3) have look: "?fs ty = Some descs" by (simp add: collect_lookup)
  note wf = collect_well_formed[OF assms(1)]
  from assms(3) have lst: "descs ! (length descs - 1) = last descs" by (simp add: last_conv_nth)
  have 1: "getService n ?fs p ty s =
           getService_static (provider n ?fs) ty descs (single_lookup_owner descs p) p
             (length descs - 1) s"
    by (rule getService_last[OF wf look])
  have 2: "getServices n ?fs p ty s =
           in_order (\<lambda>i. getService_static (provider n ?fs) ty descs
                            (multi_lookup_owner descs p i) p i)
             [0..<length descs] s"
    by (rule getServices_in_order_form[where fs = ?fs and ty = ty and descs = descs, OF look])
  have 3: "\<forall>r s'. getService n ?fs p ty s = (r, s') \<longrightarrow>
             created s' = created s
             \<or> (\<exists>rest. created s' = created s @
                   \<lparr>c_owner = single_lookup_owner descs p, c_key = ty, c_index = length descs - 1,
                     c_provider = p, c_type = type (last descs)\<rparr> # rest)"
    using getService_static_first_call[of n ?fs ty descs "single_lookup_owner descs p" p
        "length descs - 1" s] 1 lst by simp
  have 4: "reachable ?fs s \<longrightarrow>
            (\<forall>a s'. getService n ?fs p ty s = (Inr a, s') \<longrightarrow>
               (\<exists>obj. handle_object a = Some obj
                  \<and> dynamic_type obj = implementation (create (last descs))))
            \<and> (\<forall>as s'. getServices n ?fs p ty s = (Inr as, s') \<longrightarrow>
                 map (\<lambda>a. map_option dynamic_type (handle_object a)) as =
                   map (\<lambda>d. Some (implementation (create d))) descs)"
  proof (intro impI conjI allI)
    fix a s' assume "reachable ?fs s" and "getService n ?fs p ty s = (Inr a, s')"
    from getService_result_type[OF wf look reachable_sound[OF this(1)] this(2)]
    show "\<exists>obj. handle_object a = Some obj
                  \<and> dynamic_type obj = implementation (create (last descs))" .
  next
    fix as s' assume "reachable ?fs s" and "getServices n ?fs p ty s = (Inr as, s')"
    from getServices_result_types[OF look reachable_sound[OF this(1)] this(2)]
    show "map (\<lambda>a. map_option dynamic_type (handle_object a)) as =
                   map (\<lambda>d. Some (implementation (create d))) descs" .
  qed
  have 5: "acyclic rank rs \<and> rank ty \<le> n \<and> reachable ?fs s \<and> settled s \<longrightarrow>
            (\<exists>a s' obj. getService n ?fs p ty s = (Inr a, s') \<and> settled s'
               \<and> apply_convert (convert (last descs)) (SharedPtr obj) = Inr a
               \<and> dynamic_type obj = implementation (create (last descs))
               \<and> (type (last descs) \<noteq> Transient \<longrightarrow>
                    published s' (single_lookup_owner descs p) ty (length descs - 1) (SharedPtr obj)))
            \<and> (\<exists>as s'. getServices n ?fs p ty s = (Inr as, s') \<and> settled s'
                 \<and> length as = length descs
                 \<and> (\<forall>i < length descs. \<exists>obj.
                       apply_convert (convert (descs ! i)) (SharedPtr obj) = Inr (as ! i)
                       \<and> dynamic_type obj = implementation (create (descs ! i))
                       \<and> (type (descs ! i) \<noteq> Transient \<longrightarrow>
                            published s' (multi_lookup_owner descs p i) ty i (SharedPtr obj))))"
  proof (intro impI, elim conjE)
    assume ac: "acyclic rank rs" and n: "rank ty \<le> n" and reach: "reachable ?fs s"
      and st: "settled s"
    note rk = acyclic_ranked[OF ac assms(1)]
    from getService_answer[OF rk n look reach st, of p]
      getServices_answer[OF rk n look reach st, of p]
    show "(\<exists>a s' obj. getService n ?fs p ty s = (Inr a, s') \<and> settled s'
               \<and> apply_convert (convert (last descs)) (SharedPtr obj) = Inr a
               \<and> dynamic_type obj = implementation (create (last descs))
               \<and> (type (last descs) \<noteq> Transient \<longrightarrow>
                    published s' (single_lookup_owner descs p) ty (length descs - 1) (SharedPtr obj)))
            \<and> (\<exists>as s'. getServices n ?fs p ty s = (Inr as, s') \<and> settled s'
                 \<and> length as = length descs
                 \<and> (\<forall>i < length descs. \<exists>obj.
                       apply_convert (convert (descs ! i)) (SharedPtr obj) = Inr (as ! i)
                       \<and> dynamic_type obj = implementation (create (descs ! i))
                       \<and> (type (descs ! i) \<noteq> Transient \<longrightarrow>
                            published s' (multi_lookup_owner descs p i) ty i (SharedPtr obj))))"
      by (rule conjI)
  qed
  have 6: "fst (getService 1 (collect xyz_registrations) Root (TypeId ''I'') build) =
           Inr (ReferenceWrapper (Object 0 ''Z'' []))"
    by (simp only: xyz_first_lookup fst_conv)
  show ?thesis
    by (intro conjI look 1 2 3 4 5 6 xyz_multi_lookup xyz_multi_after_single)
qed

theorem lookup_selects_descriptions_witness:
  "length logged_registrations < 2 ^ 64
   \<and> registered_for (TypeId ''I'') logged_registrations \<noteq> []
   \<and> acyclic logged_rank logged_registrations
   \<and> logged_rank (TypeId ''I'') \<le> 2
   \<and> reachable (collect logged_registrations) build \<and> settled build
   \<and> map (implementation \<circ> create) (registered_for (TypeId ''I'') logged_registrations)
       = [''X'', ''Y'', ''Z'']
   \<and> (\<exists>a s' obj. getService 2 (collect logged_registrations) Root (TypeId ''I'') build = (Inr a, s')
        \<and> settled s' \<and> a = ReferenceWrapper obj \<and> dynamic_type obj = ''Z''
        \<and> published s' Root (TypeId ''I'') 2 (SharedPtr obj))
   \<and> (\<exists>as s'. getServices 2 (collect logged_registrations) Root (TypeId ''I'') build = (Inr as, s')
        \<and> settled s' \<and> length as = 3
        \<and> (\<forall>i < 3. \<exists>obj. as ! i = ReferenceWrapper obj
              \<and> dynamic_type obj = [''X'', ''Y'', ''Z''] ! i
              \<and> published s' Root (TypeId ''I'') i (SharedPtr obj)))
   \<and> fst (getServices 2 (collect logged_registrations) Root (TypeId ''I'') build) =
       Inr [ReferenceWrapper (Object 1 ''X'' [RefArg (Object 0 ''L'' [])]),
            ReferenceWrapper (Object 2 ''Y'' []),
            ReferenceWrapper (Object 3 ''Z'' [RefArg (Object 0 ''L'' [])])]"
proof -
  let ?rs = logged_registrations
  let ?I = "TypeId ''I''"
  let ?descs = "[\<lparr>create = ServiceFactory ''X'' [ByReference ''L''], convert = ToReference, type = Singleton\<rparr>,
           \<lparr>create = ServiceFactory ''Y'' [], convert = ToReference, type = Singleton\<rparr>,
           \<lparr>create = ServiceFactory ''Z'' [ByReference ''L''], convert = ToReference, type = Singleton\<rparr>]"
  have len: "length ?rs < 2 ^ 64" by (simp add: logged_registrations_def)
  have descs: "?descs = registered_for ?I ?rs"
    by (simp add: registered_for_def logged_registrations_def)
  have ne: "?descs \<noteq> []" by simp
  have rank: "logged_rank ?I \<le> 2" by (simp add: logged_rank_def)
  note st = settled_build
  note inst = lookup_selects_descriptions[OF len descs ne, of 2 Root build logged_rank]
  note hyps = conjI[OF logged_acyclic conjI[OF rank conjI[OF reachable_build[of "collect ?rs"] st]]]
  note live = mp[OF inst[THEN conjunct2, THEN conjunct2, THEN conjunct2, THEN conjunct2,
        THEN conjunct2, THEN conjunct1] hyps]
  from live[THEN conjunct1] obtain a s1 obj where
    a: "getService 2 (collect ?rs) Root ?I build = (Inr a, s1)" "settled s1"
       "apply_convert (convert (last ?descs)) (SharedPtr obj) = Inr a"
       "dynamic_type obj = implementation (create (last ?descs))"
       "type (last ?descs) \<noteq> Transient \<longrightarrow>
          published s1 (single_lookup_owner ?descs Root) ?I (length ?descs - 1) (SharedPtr obj)"
    by blast
  from a(3) have a3: "a = ReferenceWrapper obj" by simp
  from a(4) have a4: "dynamic_type obj = ''Z''" by simp
  from a(5) have a5: "published s1 Root ?I 2 (SharedPtr obj)" by (simp add: numeral_2_eq_2)
  from a(1,2) a3 a4 a5 have single: "\<exists>a s' obj. getService 2 (collect ?rs) Root ?I build = (Inr a, s')
        \<and> settled s' \<and> a = ReferenceWrapper obj \<and> dynamic_type obj = ''Z''
        \<and> published s' Root ?I 2 (SharedPtr obj)"
    by blast
  from live[THEN conjunct2] obtain as s' where multi: "getServices 2 (collect ?rs) Root ?I build = (Inr as, s')"
    "settled s'" "length as = length ?descs"
    and each: "\<forall>i < length ?descs. \<exists>obj.
                       apply_convert (convert (?descs ! i)) (SharedPtr obj) = Inr (as ! i)
                       \<and> dynamic_type obj = implementation (create (?descs ! i))
                       \<and> (type (?descs ! i) \<noteq> Transient \<longrightarrow>
                            published s' (multi_lookup_owner ?descs Root i) ?I i (SharedPtr obj))"
    by blast
  from multi(3) have len3: "length as = 3" by simp
  have "\<exists>obj. as ! i = ReferenceWrapper obj \<and> dynamic_type obj = [''X'', ''Y'', ''Z''] ! i
              \<and> published s' Root ?I i (SharedPtr obj)" if "i < 3" for i
  proof -
    from that have "i = 0 \<or> i = 1 \<or> i = 2" by auto
    then show ?thesis
    proof (elim disjE)
      assume i: "i = 0"
      from each[rule_format, of 0] obtain obj where
        "apply_convert (convert (?descs ! 0)) (SharedPtr obj) = Inr (as ! 0)"
        "dynamic_type obj = implementation (create (?descs ! 0))"
        "type (?descs ! 0) \<noteq> Transient \<longrightarrow>
           published s' (multi_lookup_owner ?descs Root 0) ?I 0 (SharedPtr obj)" by auto
      then have "as ! 0 = ReferenceWrapper obj \<and> dynamic_type obj = ''X''
           \<and> published s' Root ?I 0 (SharedPtr obj)" by simp
      with i show ?thesis by auto
    next
      assume i: "i = 1"
      from each[rule_format, of 1] obtain obj where
        "apply_convert (convert (?descs ! 1)) (SharedPtr obj) = Inr (as ! 1)"
        "dynamic_type obj = implementation (create (?descs ! 1))"
        "type (?descs ! 1) \<noteq> Transient \<longrightarrow>
           published s' (multi_lookup_owner ?descs Root 1) ?I 1 (SharedPtr obj)" by auto
      then have "as ! 1 = ReferenceWrapper obj \<and> dynamic_type obj = ''Y''
           \<and> published s' Root ?I 1 (SharedPtr obj)" by simp
      with i show ?thesis by auto
    next
      assume i: "i = 2"
      from each[rule_format, of 2] obtain obj where
        "apply_convert (convert (?descs ! 2)) (SharedPtr obj) = Inr (as ! 2)"
        "dynamic_type obj = implementation (create (?descs ! 2))"
        "type (?descs ! 2) \<noteq> Transient \<longrightarrow>
           published s' (multi_lookup_owner ?descs Root 2) ?I 2 (SharedPtr obj)" by auto
      then have "as ! 2 = ReferenceWrapper obj \<and> dynamic_type obj = ''Z''
           \<and> published s' Root ?I 2 (SharedPtr obj)" by simp
      with i show ?thesis by auto
    qed
  qed
  with multi(1,2) len3 have m: "\<exists>as s'. getServices 2 (collect ?rs) Root ?I build = (Inr as, s')
        \<and> settled s' \<and> length as = 3
        \<and> (\<forall>i < 3. \<exists>obj. as ! i = ReferenceWrapper obj
              \<and> dynamic_type obj = [''X'', ''Y'', ''Z''] ! i
              \<and> published s' Root ?I i (SharedPtr obj))" by blast
  have types: "map (implementation \<circ> create) (registered_for ?I ?rs) = [''X'', ''Y'', ''Z'']"
    by (simp add: descs[symmetric])
  from descs ne have ne': "registered_for ?I ?rs \<noteq> []" by simp
  show ?thesis
    by (intro conjI len ne' logged_acyclic rank reachable_build st types single m logged_multi_lookup)
qed

subsection \<open>Transient instances\<close>

lemma apply_convert_handle:
  "apply_convert c v = Inr a \<Longrightarrow> \<exists>obj. v = SharedPtr obj \<and> handle_object a = Some obj"
  by (cases c; cases v) auto

lemma in_order_split:
  assumes "in_order f (xs @ x # ys) s = (Inr zs, s')"
  shows "\<exists>as a bs t t'. zs = as @ a # bs \<and> length as = length xs
           \<and> in_order f xs s = (Inr as, t) \<and> f x t = (Inr a, t')
           \<and> in_order f ys t' = (Inr bs, s')"
  using assms
proof (induction xs arbitrary: s zs)
  case Nil
  then show ?case by (auto split: prod.splits sum.splits)
next
  case (Cons y xs)
  from Cons.prems obtain b s1 zs' where first: "f y s = (Inr b, s1)"
    and rest: "in_order f (xs @ x # ys) s1 = (Inr zs', s')" and zs: "zs = b # zs'"
    by (auto split: prod.splits sum.splits)
  from Cons.IH[OF rest] obtain as a bs t t' where
    "zs' = as @ a # bs" "length as = length xs" "in_order f xs s1 = (Inr as, t)"
    "f x t = (Inr a, t')" "in_order f ys t' = (Inr bs, s')" by blast
  with first zs show ?case
    by (intro exI[of _ "b # as"] exI[of _ a] exI[of _ bs] exI[of _ t] exI[of _ t']) simp
qed

lemma in_order_results:
  assumes step: "\<And>x s r s'. x \<in> set xs \<Longrightarrow> I s \<Longrightarrow> f x s = (r, s')
                   \<Longrightarrow> I s' \<and> R s s' \<and> (\<forall>b. r = Inr b \<longrightarrow> Q s' b)"
    and mono: "\<And>s s' b. R s s' \<Longrightarrow> Q s b \<Longrightarrow> Q s' b"
    and refl: "\<And>s. R s s" and trans: "\<And>a b c. R a b \<Longrightarrow> R b c \<Longrightarrow> R a c"
    and "I s" and "in_order f xs s = (r, s')"
  shows "I s' \<and> R s s' \<and> (\<forall>bs. r = Inr bs \<longrightarrow> (\<forall>b \<in> set bs. Q s' b))"
  using assms(1,5,6)
proof (induction xs arbitrary: s r s')
  case Nil
  then show ?case by (auto simp: refl)
next
  case (Cons x xs)
  obtain r1 s1 where first: "f x s = (r1, s1)" by (cases "f x s")
  from Cons.prems(1)[OF _ Cons.prems(2) first]
  have 1: "I s1" "R s s1" "\<forall>b. r1 = Inr b \<longrightarrow> Q s1 b" by simp_all
  show ?case
  proof (cases r1)
    case (Inl e)
    with first Cons.prems(3) 1 show ?thesis by auto
  next
    case (Inr b)
    obtain r2 s2 where rest: "in_order f xs s1 = (r2, s2)" by (cases "in_order f xs s1")
    have "I s2 \<and> R s1 s2 \<and> (\<forall>bs. r2 = Inr bs \<longrightarrow> (\<forall>b \<in> set bs. Q s2 b))"
    proof (rule Cons.IH[OF _ 1(1) rest])
      show "I s' \<and> R s s' \<and> (\<forall>b. r = Inr b \<longrightarrow> Q s' b)"
        if "x' \<in> set xs" "I s" "f x' s = (r, s')" for x' s r s'
        using Cons.prems(1)[of x' s r s'] that by simp
    qed
    then have 2: "I s2" "R s1 s2" "\<forall>bs. r2 = Inr bs \<longrightarrow> (\<forall>b \<in> set bs. Q s2 b)" by simp_all
    from 1(3) Inr have "Q s1 b" by simp
    from mono[OF 2(2) this] have qb: "Q s2 b" .
    show ?thesis
    proof (cases r2)
      case (Inl e)
      with first Inr rest Cons.prems(3) 2(1) trans[OF 1(2) 2(2)] show ?thesis by auto
    next
      case bs: (Inr bs)
      with first Inr rest Cons.prems(3) have "r = Inr (b # bs)" "s' = s2" by auto
      with 2 bs qb trans[OF 1(2) 2(2)] show ?thesis by auto
    qed
  qed
qed

lemma stored_emplace_back: "a \<in> stored (emplace_back_order this a s)"
  by (cases this) (auto simp: stored_def emplace_back_order_def intro: exI[of _ this])

lemma held_stored: "SharedPtr obj \<in> stored s \<Longrightarrow> obj \<in> held s"
  by (force simp: held_def)

lemma getService_static_result_origin:
  assumes sp: "provider_evolves sp"
    and run: "getService_static sp key descs this p index s = (Inr a, s')"
    and h: "handle_object a = Some (Object addr T args)"
  shows "Object addr T args \<in> held s' \<or> next_address s \<le> addr"
  using run
proof (cases rule: getService_static_cases)
  case (constructed c v s3)
  from constructed(7) have "apply_convert (convert (descs ! index)) v = Inr a" by simp
  from apply_convert_handle[OF this] h have v: "v = SharedPtr (Object addr T args)" by auto
  from constructed(6) have "v \<in> stored s'" by (simp add: stored_emplace_back)
  with v show ?thesis by (simp add: held_stored)
next
  case (cached c v)
  from cached(6) have "apply_convert (convert (descs ! index)) v = Inr a" by simp
  from apply_convert_handle[OF this] h have v: "v = SharedPtr (Object addr T args)" by auto
  from stored_slot[OF cached(3,5)] cached(7) have "v \<in> stored s'" by simp
  with v show ?thesis by (simp add: held_stored)
next
  case (transient v)
  from transient(4) have "apply_convert (convert (descs ! index)) v = Inr a" by simp
  from apply_convert_handle[OF this] h have v: "v = SharedPtr (Object addr T args)" by auto
  from call_create_address[OF sp transient(3)] v show ?thesis by simp
qed simp_all

lemma getService_static_never_returns:
  assumes sp: "provider_evolves sp" and own: "this = Root \<or> this = p"
    and run: "getService_static sp key descs this p index t = (r, t')"
    and nh: "Object addr T args \<notin> held t" and al: "addr < next_address t"
  shows "Object addr T args \<notin> held t' \<and> addr < next_address t'
       \<and> (\<forall>b. r = Inr b \<longrightarrow> handle_object b \<noteq> Some (Object addr T args))"
proof -
  from getService_static_evolves[OF sp own run] have ev: "evolves p t t'" .
  from grows_not_held[OF evolves_grows[OF ev] nh al] have 1: "Object addr T args \<notin> held t'" .
  from ev al have 2: "addr < next_address t'" by (simp add: evolves_def)
  have "handle_object b \<noteq> Some (Object addr T args)" if "r = Inr b" for b
  proof
    assume "handle_object b = Some (Object addr T args)"
    from getService_static_result_origin[OF sp run[unfolded that] this] 1 al show False by simp
  qed
  with 1 2 show ?thesis by simp
qed

lemma in_order_never_returns:
  assumes sp: "provider_evolves sp" and own: "\<And>i. g i = Root \<or> g i = p"
    and run: "in_order (\<lambda>i. getService_static sp key descs (g i) p i) xs t = (r, t')"
    and nh: "Object addr T args \<notin> held t" and al: "addr < next_address t"
  shows "Object addr T args \<notin> held t' \<and> addr < next_address t'
       \<and> (\<forall>bs. r = Inr bs \<longrightarrow> (\<forall>b \<in> set bs. handle_object b \<noteq> Some (Object addr T args)))"
proof -
  have "(Object addr T args \<notin> held t' \<and> addr < next_address t') \<and> True
       \<and> (\<forall>bs. r = Inr bs \<longrightarrow> (\<forall>b \<in> set bs. handle_object b \<noteq> Some (Object addr T args)))"
  proof (rule in_order_results[where
        I = "\<lambda>s. Object addr T args \<notin> held s \<and> addr < next_address s"
        and R = "\<lambda>s s'. True" and Q = "\<lambda>s b. handle_object b \<noteq> Some (Object addr T args)"
        and f = "\<lambda>i. getService_static sp key descs (g i) p i", OF _ _ _ _ _ run])
    fix x s r s'
    assume "Object addr T args \<notin> held s \<and> addr < next_address s"
      and "getService_static sp key descs (g x) p x s = (r, s')"
    with getService_static_never_returns[OF sp own, of key descs x x s r s' addr T args]
    show "(Object addr T args \<notin> held s' \<and> addr < next_address s') \<and> True
            \<and> (\<forall>b. r = Inr b \<longrightarrow> handle_object b \<noteq> Some (Object addr T args))"
      by simp
  qed (use nh al in simp_all)
  then show ?thesis by simp
qed

lemma getService_never_returns:
  assumes run: "getService m fs q ty t = (Inr b, t')"
    and nh: "Object addr T args \<notin> held t" and al: "addr < next_address t"
  shows "handle_object b \<noteq> Some (Object addr T args)"
proof (cases "fs ty")
  case None
  with run have "b = NoValue"
    by (cases q) (simp_all add: getService_def ServiceProvider_getService_def
        ScopedServiceProvider_getService_def)
  then show ?thesis by simp
next
  case (Some descs)
  from getService_static_form[OF run Some]
  have "getService_static (provider m fs) ty descs (single_lookup_owner descs q) q
          (size_minus_one descs) t = (Inr b, t')" .
  from getService_static_never_returns[OF provider_evolves single_lookup_owner_cases this nh al]
  show ?thesis by simp
qed

lemma getServices_never_returns:
  assumes run: "getServices m fs q ty t = (Inr bs, t')"
    and nh: "Object addr T args \<notin> held t" and al: "addr < next_address t"
  shows "\<forall>b \<in> set bs. handle_object b \<noteq> Some (Object addr T args)"
proof (cases "fs ty")
  case None
  with run have "bs = []"
    by (cases q) (simp_all add: getServices_def ServiceProvider_getServices_def
        ScopedServiceProvider_getServices_def)
  then show ?thesis by simp
next
  case (Some descs)
  from run getServices_in_order_form[where fs = fs and ty = ty and descs = descs, OF Some, of m q t]
  have "in_order (\<lambda>i. getService_static (provider m fs) ty descs (multi_lookup_owner descs q i) q i)
          [0..<length descs] t = (Inr bs, t')" by simp
  from in_order_never_returns[OF provider_evolves multi_lookup_owner_cases this nh al]
  show ?thesis by simp
qed

lemma fresh_instanceI:
  assumes s': "Object addr T args \<notin> held s'" "addr < next_address s'"
    and s: "sound fs s" "next_address s \<le> addr"
  shows "fresh_instance fs s s' (Object addr T args)"
proof -
  from sound_held[OF s(1), of "Object addr T args"] s(2) have before: "Object addr T args \<notin> held s"
    by auto
  have later: "Object addr T args \<notin> held t \<and> addr < next_address t"
    if "(api_step fs)\<^sup>*\<^sup>* s' t" for t
  proof -
    from api_steps_grows[OF that] have g: "grows s' t" .
    from grows_not_held[OF g s'] g s'(2) show ?thesis by (simp add: grows_def)
  qed
  have 1: "\<exists>a Ta argsa. Object addr T args = Object a Ta argsa \<and> next_address s \<le> a
          \<and> a < next_address s'"
    using s(2) s'(2) by simp
  have 2: "\<forall>t. (api_step fs)\<^sup>*\<^sup>* s' t \<longrightarrow>
           Object addr T args \<notin> held t
           \<and> (\<forall>m q ty b t'. getService m fs q ty t = (Inr b, t')
                  \<longrightarrow> handle_object b \<noteq> Some (Object addr T args))
           \<and> (\<forall>m q ty bs t'. getServices m fs q ty t = (Inr bs, t') \<longrightarrow>
                 (\<forall>b \<in> set bs. handle_object b \<noteq> Some (Object addr T args)))"
  proof (intro allI impI conjI)
    fix t assume "(api_step fs)\<^sup>*\<^sup>* s' t"
    from later[OF this] show "Object addr T args \<notin> held t" by simp
  next
    fix t m q ty b t'
    assume "(api_step fs)\<^sup>*\<^sup>* s' t" and run: "getService m fs q ty t = (Inr b, t')"
    from later[OF this(1)] have "Object addr T args \<notin> held t" "addr < next_address t" by simp_all
    from getService_never_returns[OF run this]
    show "handle_object b \<noteq> Some (Object addr T args)" .
  next
    fix t m q ty bs t'
    assume "(api_step fs)\<^sup>*\<^sup>* s' t" and run: "getServices m fs q ty t = (Inr bs, t')"
    from later[OF this(1)] have "Object addr T args \<notin> held t" "addr < next_address t" by simp_all
    from getServices_never_returns[OF run this]
    show "\<forall>b \<in> set bs. handle_object b \<noteq> Some (Object addr T args)" .
  qed
  from 1 before s'(1) 2 show ?thesis unfolding fresh_instance_def by (intro conjI)
qed

lemma upt_split: "i < n \<Longrightarrow> [0..<n] = [0..<i] @ i # [Suc i..<n]"
  by (metis le_add1 less_imp_add_positive less_or_eq_imp_le plus_nat.add_0 upt_add_eq_append upt_conv_Cons)

lemma getService_static_transient_call:
  assumes tr: "type (descs ! index) = Transient" and idx: "index < length descs"
    and run: "getService_static (provider n fs) key descs this p index s = (r, s')"
  shows "\<exists>rest. created s' = created s @
           \<lparr>c_owner = this, c_key = key, c_index = index, c_provider = p, c_type = Transient\<rparr> # rest"
  using run
proof (cases rule: getService_static_cases)
  case (transient_failed e)
  from call_create_created[OF transient_failed(3)] tr show ?thesis by auto
next
  case (transient a)
  from call_create_created[OF transient(3)] tr show ?thesis by auto
qed (use tr idx in simp_all)

lemma getService_static_transient:
  assumes sp: "provider_evolves sp" and so: "provider_sound fs sp" and s: "sound fs s"
    and tr: "type (descs ! index) = Transient"
    and run: "getService_static sp key descs this p index s = (Inr a, s')"
  shows "case create (descs ! index) of
           ServiceFactory T ps \<Rightarrow>
             (\<exists>addr args.
                apply_convert (convert (descs ! index)) (SharedPtr (Object addr T args)) = Inr a
                \<and> next_address s \<le> addr \<and> addr < next_address s'
                \<and> Object addr T args \<notin> held s')
         | ExistingService T k \<Rightarrow>
             apply_convert (convert (descs ! index)) (SharedPtr (Existing T k)) = Inr a"
  using run
proof (cases rule: getService_static_cases)
  case (transient v)
  let ?s0 = "record_creation this key index p (type (descs ! index)) s"
  from transient(4) have conv: "apply_convert (convert (descs ! index)) v = Inr a" by simp
  from transient(3) show ?thesis
  proof (cases rule: call_create_cases)
    case (created args s1 T ps)
    let ?obj = "Object (next_address s1) T args"
    from created(1,3) have v: "v = SharedPtr ?obj" by simp
    have ev: "evolves p ?s0 s1"
      using in_order_evolves[OF _ created(2)] ServiceFactory_getService_evolves[OF sp] by blast
    have "keeps_sound fs ?s0 s1"
      using in_order_keeps_sound[OF _ created(2)] ServiceFactory_getService_keeps_sound[OF so] by blast
    with sound_record_creation[OF s] have s1: "sound fs s1" by (simp add: keeps_sound_def)
    from conv v have h: "apply_convert (convert (descs ! index)) (SharedPtr ?obj) = Inr a" by simp
    from ev have na: "next_address s \<le> next_address s1" by (simp add: evolves_def)
    have nh: "?obj \<notin> held s'" using sound_held[OF s1, of ?obj] created(4) by auto
    from h na nh created(1,4) show ?thesis by auto
  next
    case (existing T k)
    with conv show ?thesis by auto
  qed simp
qed (use tr in simp_all)

lemma getService_static_result_allocated:
  assumes s: "sound fs s"
    and run: "getService_static sp key descs this p index s = (Inr a, s')"
    and h: "handle_object a = Some obj"
  shows "allocated s' obj"
  using run
proof (cases rule: getService_static_cases)
  case (constructed c v s3)
  from constructed(7) have "apply_convert (convert (descs ! index)) v = Inr a" by simp
  from apply_convert_handle[OF this] h have "v = SharedPtr obj" by auto
  with call_create_result[OF constructed(5)] constructed(6) show ?thesis by simp
next
  case (cached c v)
  from cached(6) have "apply_convert (convert (descs ! index)) v = Inr a" by simp
  from apply_convert_handle[OF this] h have v: "v = SharedPtr obj" by auto
  have "sound fs (emplace_instances this key (length descs) s)"
    by (rule sound_emplace_instances[OF s])
  from sound_stored[OF this stored_slot[OF cached(3,5)]] v cached(7) show ?thesis by simp
next
  case (transient v)
  from transient(4) have "apply_convert (convert (descs ! index)) v = Inr a" by simp
  from apply_convert_handle[OF this] h have "v = SharedPtr obj" by auto
  with call_create_result[OF transient(3)] show ?thesis by simp
qed simp_all

lemma in_order_results_allocated:
  assumes own: "\<And>i. g i = Root \<or> g i = p" and descs: "fs key = Some descs"
    and run: "in_order (\<lambda>i. getService_static (provider n fs) key descs (g i) p i) xs s = (r, s')"
    and s: "sound fs s"
  shows "sound fs s' \<and> next_address s \<le> next_address s'
       \<and> (\<forall>bs. r = Inr bs \<longrightarrow>
             (\<forall>b \<in> set bs. \<forall>obj. handle_object b = Some obj \<longrightarrow> allocated s' obj))"
proof (rule in_order_results[where I = "sound fs"
      and R = "\<lambda>s s'. next_address s \<le> next_address s'"
      and Q = "\<lambda>s b. \<forall>obj. handle_object b = Some obj \<longrightarrow> allocated s obj"
      and f = "\<lambda>i. getService_static (provider n fs) key descs (g i) p i", OF _ _ _ _ s run])
  fix x t r t'
  assume t: "sound fs t"
    and step: "getService_static (provider n fs) key descs (g x) p x t = (r, t')"
  from getService_static_keeps_sound[OF provider_sound descs step] t
  have 1: "sound fs t'" by (simp add: keeps_sound_def)
  from getService_static_evolves[OF provider_evolves own step]
  have 2: "next_address t \<le> next_address t'" by (simp add: evolves_def)
  have "allocated t' obj" if "r = Inr b" "handle_object b = Some obj" for b obj
    using getService_static_result_allocated[OF t step[unfolded that(1)] that(2)] .
  with 1 2 show "sound fs t' \<and> next_address t \<le> next_address t'
          \<and> (\<forall>b. r = Inr b \<longrightarrow> (\<forall>obj. handle_object b = Some obj \<longrightarrow> allocated t' obj))"
    by blast
next
  show "\<forall>obj. handle_object b = Some obj \<longrightarrow> allocated s' obj"
    if "next_address s \<le> next_address s'" "\<forall>obj. handle_object b = Some obj \<longrightarrow> allocated s obj"
    for s s' :: state and b
    using that allocated_mono by blast
qed simp_all

lemma in_order_created:
  assumes "in_order (\<lambda>i. getService_static (provider n fs) key descs (g i) p i) xs s = (r, s')"
  shows "\<exists>new. created s' = created s @ new"
proof -
  have "accounted s s'"
    by (rule in_order_accounted[OF _ assms]) (rule getService_static_accounted[OF provider_accounted])
  then show ?thesis by (rule accountedE) blast
qed

lemma getService_transient:
  assumes reach: "reachable fs s" and wf: "well_formed fs"
    and descs: "fs ty = Some descs" and tr: "type (last descs) = Transient"
    and run: "getService n fs p ty s = (Inr a, s')"
  shows "case create (last descs) of
           ServiceFactory T ps \<Rightarrow>
             (\<exists>obj. apply_convert (convert (last descs)) (SharedPtr obj) = Inr a
                \<and> dynamic_type obj = T \<and> fresh_instance fs s s' obj)
         | ExistingService T k \<Rightarrow>
             apply_convert (convert (last descs)) (SharedPtr (Existing T k)) = Inr a"
proof -
  from wf descs have ne: "descs \<noteq> []" by (auto simp: well_formed_def)
  then have last: "descs ! (length descs - 1) = last descs" by (simp add: last_conv_nth)
  note s = reachable_sound[OF reach]
  from run have st: "getService_static (provider n fs) ty descs (single_lookup_owner descs p) p
      (length descs - 1) s = (Inr a, s')"
    by (simp add: getService_last[OF wf descs])
  note t1 = getService_static_transient[OF provider_evolves provider_sound[of fs n] s _ st,
      unfolded last, OF tr]
  show ?thesis
  proof (cases "create (last descs)")
    case (ServiceFactory T ps)
    with t1 obtain addr args where
      obj: "apply_convert (convert (last descs)) (SharedPtr (Object addr T args)) = Inr a"
      "next_address s \<le> addr" "addr < next_address s'" "Object addr T args \<notin> held s'"
      by auto
    from fresh_instanceI[OF obj(4,3) s obj(2)] obj(1) ServiceFactory show ?thesis by auto
  next
    case (ExistingService T k)
    with t1 show ?thesis by simp
  qed
qed

lemma getServices_transient:
  assumes reach: "reachable fs s"
    and descs: "fs ty = Some descs" and i: "i < length descs" and tr: "type (descs ! i) = Transient"
    and run: "getServices n fs p ty s = (Inr as, s')"
  shows "length as = length descs
       \<and> (\<exists>pre rest. created s' = created s @ pre @
             \<lparr>c_owner = multi_lookup_owner descs p i, c_key = ty, c_index = i, c_provider = p,
               c_type = Transient\<rparr> # rest)
       \<and> (case create (descs ! i) of
             ServiceFactory T ps \<Rightarrow>
               (\<exists>obj. apply_convert (convert (descs ! i)) (SharedPtr obj) = Inr (as ! i)
                  \<and> dynamic_type obj = T \<and> fresh_instance fs s s' obj
                  \<and> (\<forall>j < length descs. j \<noteq> i \<longrightarrow> handle_object (as ! j) \<noteq> Some obj))
           | ExistingService T k \<Rightarrow>
               apply_convert (convert (descs ! i)) (SharedPtr (Existing T k)) = Inr (as ! i))"
proof -
  let ?f = "\<lambda>i. getService_static (provider n fs) ty descs (multi_lookup_owner descs p i) p i"
  note s = reachable_sound[OF reach]
  from run have io: "in_order ?f ([0..<i] @ i # [Suc i..<length descs]) s = (Inr as, s')"
    using getServices_in_order_form[where fs = fs and ty = ty and descs = descs, OF descs, of n p s]
      upt_split[OF i] by simp
  from in_order_split[OF io] obtain pre a post t t' where
    as: "as = pre @ a # post" and len: "length pre = i"
    and before: "in_order ?f [0..<i] s = (Inr pre, t)"
    and here: "?f i t = (Inr a, t')"
    and after: "in_order ?f [Suc i..<length descs] t' = (Inr post, s')"
    by auto
  from as len have ai: "as ! i = a" using nth_append_length[of pre a post] by simp
  from in_order_split[OF io] have length: "length as = length descs"
    using getServices_published[OF run descs] getServices_result_types[OF descs s run]
    by (metis length_map)
  from in_order_results_allocated[OF multi_lookup_owner_cases descs before s]
  have t: "sound fs t" "next_address s \<le> next_address t"
    and pre: "\<forall>b \<in> set pre. \<forall>obj. handle_object b = Some obj \<longrightarrow> allocated t obj"
    by simp_all
  from in_order_created[OF before] obtain c1 where c1: "created t = created s @ c1" by blast
  from getService_static_transient_call[OF tr i here] obtain c2 where
    c2: "created t' = created t @
           \<lparr>c_owner = multi_lookup_owner descs p i, c_key = ty, c_index = i, c_provider = p,
             c_type = Transient\<rparr> # c2" by blast
  from in_order_created[OF after] obtain c3 where c3: "created s' = created t' @ c3" by blast
  from c1 c2 c3 have hist: "\<exists>pre rest. created s' = created s @ pre @
             \<lparr>c_owner = multi_lookup_owner descs p i, c_key = ty, c_index = i, c_provider = p,
               c_type = Transient\<rparr> # rest"
    by (intro exI[of _ c1] exI[of _ "c2 @ c3"]) simp
  note t1 = getService_static_transient[OF provider_evolves provider_sound[of fs n] t(1) tr here]
  have "case create (descs ! i) of
             ServiceFactory T ps \<Rightarrow>
               (\<exists>obj. apply_convert (convert (descs ! i)) (SharedPtr obj) = Inr (as ! i)
                  \<and> dynamic_type obj = T \<and> fresh_instance fs s s' obj
                  \<and> (\<forall>j < length descs. j \<noteq> i \<longrightarrow> handle_object (as ! j) \<noteq> Some obj))
           | ExistingService T k \<Rightarrow>
               apply_convert (convert (descs ! i)) (SharedPtr (Existing T k)) = Inr (as ! i)"
  proof (cases "create (descs ! i)")
    case (ServiceFactory T ps)
    with t1 obtain addr args where
      obj: "apply_convert (convert (descs ! i)) (SharedPtr (Object addr T args)) = Inr a"
      "next_address t \<le> addr" "addr < next_address t'" "Object addr T args \<notin> held t'"
      by auto
    from in_order_never_returns[OF provider_evolves multi_lookup_owner_cases after obj(4,3)]
    have s': "Object addr T args \<notin> held s'" "addr < next_address s'"
      and post: "\<forall>b \<in> set post. handle_object b \<noteq> Some (Object addr T args)" by simp_all
    from t(2) obj(2) have "next_address s \<le> addr" by simp
    from fresh_instanceI[OF s' s this] have fresh: "fresh_instance fs s s' (Object addr T args)" .
    have other: "handle_object (as ! j) \<noteq> Some (Object addr T args)"
      if j: "j < length descs" "j \<noteq> i" for j
    proof (cases "j < i")
      case True
      with as len have "as ! j = pre ! j" "pre ! j \<in> set pre" by (simp_all add: nth_append)
      with pre obj(2) show ?thesis by (metis allocated_Object not_le)
    next
      case False
      with j as len length have "as ! j = post ! (j - Suc i)" "j - Suc i < length post"
        by (auto simp: nth_append nth_Cons')
      with post show ?thesis by simp
    qed
    from obj(1) ai fresh other ServiceFactory show ?thesis by auto
  next
    case (ExistingService T k)
    with t1 ai show ?thesis by simp
  qed
  with length hist show ?thesis by simp
qed

lemma transient_convert:
  assumes "d \<in> set (registered_for ty rs)" and "type d = Transient"
  shows "convert d = ToSharedPtr"
proof -
  from registered_for_member[OF assms(1)] obtain r where "d = snd (description_of r)" by blast
  with assms(2) show ?thesis by (cases r) simp_all
qed

lemma calls_between_append: "created s' = created s @ new \<Longrightarrow> calls_between s s' = new"
  by (simp add: calls_between_def)

lemma getService_static_transient_no_parameters:
  assumes tr: "type (descs ! index) = Transient" and idx: "index < length descs"
    and np: "parameters (create (descs ! index)) = []"
    and run: "getService_static sp key descs this p index s = (r, s')"
  shows "root s' = root s \<and> scopes s' = scopes s"
  using run
proof (cases rule: getService_static_cases)
  case (transient_failed e)
  from transient_failed(3) np show ?thesis by (cases rule: call_create_cases) simp_all
next
  case (transient a)
  from transient(3) np show ?thesis by (cases rule: call_create_cases) auto
qed (use tr idx in simp_all)

lemma captured_lookup:
  "collect captured_registrations (SharedPtrTypeId ''I'') =
     Some [\<lparr>create = ExistingService ''E'' 0, convert = ToSharedPtr, type = Transient\<rparr>]"
  by (simp add: collect_lookup registered_for_def captured_registrations_def)

lemma captured_twice:
  "fst (getService 1 (collect captured_registrations) Root (SharedPtrTypeId ''I'') build) =
     Inr (SharedPtr (Existing ''E'' 0))"
  "fst (getService 1 (collect captured_registrations) Root (SharedPtrTypeId ''I'')
          (snd (getService 1 (collect captured_registrations) Root (SharedPtrTypeId ''I'') build))) =
     Inr (SharedPtr (Existing ''E'' 0))"
  by (simp_all add: captured_lookup evaluation)

lemma gst_acyclic: "acyclic gst_rank gst_registrations"
  by (simp add: acyclic_def gst_rank_def gst_registrations_def)

lemma members_two_scopes: "members two_scopes q = empty_members"
  by (cases q) (simp_all add: two_scopes_eq)

lemma settled_two_scopes: "settled two_scopes"
  by (simp add: settled_def pending_def slot_at_empty_members[OF members_two_scopes])

text \<open>
  Claim C6, as amended. Let the description at index \<open>i\<close> of the key \<open>ty\<close> be
  transient, in a collection built from the registrations \<open>rs\<close>, and let the state be
  reachable. Whatever a single lookup of the key returns, when the description is the
  last one of the key, the lookup has called its factory, the call is the first one that
  the lookup adds to the history, and the lookup is accounted for: a table differs only
  at a key for which the history has gained the call of a cached description, and an
  initialization order has grown by at most one entry for each such call of its owner.
  So the members of the root and of every scope are unchanged when the lookup has made
  no call of a cached description, which is the case when the factory has no
  parameters. When the lookup returns and the factory is the one derived from a
  constructor, the result is a shared pointer to an object of the implementation that is
  new: its address was handed out during the lookup, no table and no initialization
  order stores it, before or after the lookup or in any later state, and no later
  lookup of any key on any provider returns it. When the factory is a closure that
  returns a pointer it has captured, the result is that captured instance at every
  request. A multi lookup is accounted for in the same way; when it returns, it has
  called the factory of the description, it returns one handle for each description
  and the handle at the position \<open>i\<close> is as for the single lookup, and, for a
  constructor-derived factory, it refers to an object that no other position of the
  result refers to. When the registrations have no dependency cycle, every parameter that
  asks for one service asks for a registered key, the nesting bound is large enough and
  no construction has failed or is under way, both lookups return. A transient
  registration of a closure that returns the captured instance \<open>E\<close> returns \<open>E\<close> twice.
\<close>

theorem transient_is_new_and_never_stored:
  assumes "length rs < 2 ^ 64" and "descs = registered_for ty rs" and "i < length descs"
    and "type (descs ! i) = Transient" and "reachable (collect rs) s"
  shows "(i = length descs - 1 \<longrightarrow>
           (\<forall>r s'. getService n (collect rs) p ty s = (r, s') \<longrightarrow>
              (\<exists>rest. calls_between s s' =
                  \<lparr>c_owner = single_lookup_owner descs p, c_key = ty, c_index = i, c_provider = p,
                    c_type = Transient\<rparr> # rest)
              \<and> accounted s s'
              \<and> (cached (calls_between s s') = [] \<longrightarrow> root s' = root s \<and> scopes s' = scopes s)
              \<and> (parameters (create (descs ! i)) = [] \<longrightarrow> root s' = root s \<and> scopes s' = scopes s)
              \<and> (\<forall>a. r = Inr a \<longrightarrow>
                    (case create (descs ! i) of
                       ServiceFactory T ps \<Rightarrow>
                         (\<exists>obj. a = SharedPtr obj \<and> dynamic_type obj = T
                            \<and> fresh_instance (collect rs) s s' obj)
                     | ExistingService T k \<Rightarrow> a = SharedPtr (Existing T k)))))
       \<and> (\<forall>r s'. getServices n (collect rs) p ty s = (r, s') \<longrightarrow>
             accounted s s'
             \<and> (cached (calls_between s s') = [] \<longrightarrow> root s' = root s \<and> scopes s' = scopes s)
             \<and> (\<forall>as. r = Inr as \<longrightarrow>
                   length as = length descs
                   \<and> (\<exists>pre rest. calls_between s s' = pre @
                         \<lparr>c_owner = multi_lookup_owner descs p i, c_key = ty, c_index = i,
                           c_provider = p, c_type = Transient\<rparr> # rest)
                   \<and> (case create (descs ! i) of
                         ServiceFactory T ps \<Rightarrow>
                           (\<exists>obj. as ! i = SharedPtr obj \<and> dynamic_type obj = T
                              \<and> fresh_instance (collect rs) s s' obj
                              \<and> (\<forall>j < length descs. j \<noteq> i \<longrightarrow> handle_object (as ! j) \<noteq> Some obj))
                       | ExistingService T k \<Rightarrow> as ! i = SharedPtr (Existing T k))))
       \<and> (acyclic rank rs \<and> rank ty \<le> n \<and> settled s \<longrightarrow>
             (i = length descs - 1 \<longrightarrow>
                (\<exists>a s'. getService n (collect rs) p ty s = (Inr a, s') \<and> settled s'))
             \<and> (\<exists>as s'. getServices n (collect rs) p ty s = (Inr as, s') \<and> settled s'))
       \<and> fst (getService 1 (collect captured_registrations) Root (SharedPtrTypeId ''I'') build) =
           Inr (SharedPtr (Existing ''E'' 0))
       \<and> fst (getService 1 (collect captured_registrations) Root (SharedPtrTypeId ''I'')
                (snd (getService 1 (collect captured_registrations) Root (SharedPtrTypeId ''I'') build))) =
           Inr (SharedPtr (Existing ''E'' 0))"
proof -
  let ?fs = "collect rs"
  let ?d = "descs ! i"
  note reach = assms(5) and tr = assms(4) and i = assms(3)
  from i have ne: "descs \<noteq> []" by auto
  with assms(2) have look: "?fs ty = Some descs" by (simp add: collect_lookup)
  note wf = collect_well_formed[OF assms(1)]
  note snd = reachable_sound[OF reach] and fit = reachable_fitting[OF reach]
  from i assms(2) have "?d \<in> set (registered_for ty rs)" by simp
  from transient_convert[OF this tr] have conv: "convert ?d = ToSharedPtr" .
  have single: "(\<exists>rest. calls_between s s' =
                  \<lparr>c_owner = single_lookup_owner descs p, c_key = ty, c_index = i, c_provider = p,
                    c_type = Transient\<rparr> # rest)
              \<and> accounted s s'
              \<and> (cached (calls_between s s') = [] \<longrightarrow> root s' = root s \<and> scopes s' = scopes s)
              \<and> (parameters (create ?d) = [] \<longrightarrow> root s' = root s \<and> scopes s' = scopes s)
              \<and> (\<forall>a. r = Inr a \<longrightarrow>
                    (case create ?d of
                       ServiceFactory T ps \<Rightarrow>
                         (\<exists>obj. a = SharedPtr obj \<and> dynamic_type obj = T
                            \<and> fresh_instance ?fs s s' obj)
                     | ExistingService T k \<Rightarrow> a = SharedPtr (Existing T k)))"
    if last: "i = length descs - 1" and run: "getService n ?fs p ty s = (r, s')" for r s'
  proof -
    from ne last have lst: "last descs = ?d" by (simp add: last_conv_nth)
    from run last have st: "getService_static (provider n ?fs) ty descs (single_lookup_owner descs p) p
        i s = (r, s')"
      by (simp add: getService_last[OF wf look])
    from getService_static_transient_call[OF tr i st] obtain rest where
      "created s' = created s @
         \<lparr>c_owner = single_lookup_owner descs p, c_key = ty, c_index = i, c_provider = p,
           c_type = Transient\<rparr> # rest" by blast
    from calls_between_append[OF this] have 1: "\<exists>rest. calls_between s s' =
                  \<lparr>c_owner = single_lookup_owner descs p, c_key = ty, c_index = i, c_provider = p,
                    c_type = Transient\<rparr> # rest" by blast
    from getService_accounted[OF run] have 2: "accounted s s'" .
    from accounted_unchanged[OF 2]
    have 3: "cached (calls_between s s') = [] \<longrightarrow> root s' = root s \<and> scopes s' = scopes s"
      by (simp add: calls_between_def)
    from getService_static_transient_no_parameters[OF tr i _ st]
    have 4: "parameters (create ?d) = [] \<longrightarrow> root s' = root s \<and> scopes s' = scopes s" by blast
    have 5: "case create ?d of
               ServiceFactory T ps \<Rightarrow>
                 (\<exists>obj. a = SharedPtr obj \<and> dynamic_type obj = T \<and> fresh_instance ?fs s s' obj)
             | ExistingService T k \<Rightarrow> a = SharedPtr (Existing T k)" if "r = Inr a" for a
    proof (cases "create ?d")
      case (ServiceFactory T ps)
      with getService_transient[OF reach wf look _ run[unfolded that], unfolded lst, OF tr]
      obtain obj where obj: "apply_convert (convert ?d) (SharedPtr obj) = Inr a"
        "dynamic_type obj = T" "fresh_instance ?fs s s' obj" by auto
      from obj(1) conv have "a = SharedPtr obj" by simp
      with obj(2,3) ServiceFactory show ?thesis by auto
    next
      case (ExistingService T k)
      with getService_transient[OF reach wf look _ run[unfolded that], unfolded lst, OF tr]
      have "apply_convert (convert ?d) (SharedPtr (Existing T k)) = Inr a" by simp
      with conv have "a = SharedPtr (Existing T k)" by simp
      with ExistingService show ?thesis by simp
    qed
    from 1 2 3 4 5 show ?thesis by blast
  qed
  have multi: "accounted s s'
             \<and> (cached (calls_between s s') = [] \<longrightarrow> root s' = root s \<and> scopes s' = scopes s)
             \<and> (\<forall>as. r = Inr as \<longrightarrow>
                   length as = length descs
                   \<and> (\<exists>pre rest. calls_between s s' = pre @
                         \<lparr>c_owner = multi_lookup_owner descs p i, c_key = ty, c_index = i,
                           c_provider = p, c_type = Transient\<rparr> # rest)
                   \<and> (case create ?d of
                         ServiceFactory T ps \<Rightarrow>
                           (\<exists>obj. as ! i = SharedPtr obj \<and> dynamic_type obj = T
                              \<and> fresh_instance ?fs s s' obj
                              \<and> (\<forall>j < length descs. j \<noteq> i \<longrightarrow> handle_object (as ! j) \<noteq> Some obj))
                       | ExistingService T k \<Rightarrow> as ! i = SharedPtr (Existing T k)))"
    if run: "getServices n ?fs p ty s = (r, s')" for r s'
  proof -
    from getServices_accounted[OF run] have 1: "accounted s s'" .
    from accounted_unchanged[OF 1]
    have 2: "cached (calls_between s s') = [] \<longrightarrow> root s' = root s \<and> scopes s' = scopes s"
      by (simp add: calls_between_def)
    have 3: "length as = length descs
                   \<and> (\<exists>pre rest. calls_between s s' = pre @
                         \<lparr>c_owner = multi_lookup_owner descs p i, c_key = ty, c_index = i,
                           c_provider = p, c_type = Transient\<rparr> # rest)
                   \<and> (case create ?d of
                         ServiceFactory T ps \<Rightarrow>
                           (\<exists>obj. as ! i = SharedPtr obj \<and> dynamic_type obj = T
                              \<and> fresh_instance ?fs s s' obj
                              \<and> (\<forall>j < length descs. j \<noteq> i \<longrightarrow> handle_object (as ! j) \<noteq> Some obj))
                       | ExistingService T k \<Rightarrow> as ! i = SharedPtr (Existing T k))"
      if "r = Inr as" for as
    proof -
      note m = getServices_transient[OF reach look i tr run[unfolded that]]
      from m have len: "length as = length descs" by simp
      from m obtain pre rest where "created s' = created s @ pre @
             \<lparr>c_owner = multi_lookup_owner descs p i, c_key = ty, c_index = i, c_provider = p,
               c_type = Transient\<rparr> # rest" by blast
      from calls_between_append[OF this] have hist: "\<exists>pre rest. calls_between s s' = pre @
                         \<lparr>c_owner = multi_lookup_owner descs p i, c_key = ty, c_index = i,
                           c_provider = p, c_type = Transient\<rparr> # rest" by blast
      have "case create ?d of
                         ServiceFactory T ps \<Rightarrow>
                           (\<exists>obj. as ! i = SharedPtr obj \<and> dynamic_type obj = T
                              \<and> fresh_instance ?fs s s' obj
                              \<and> (\<forall>j < length descs. j \<noteq> i \<longrightarrow> handle_object (as ! j) \<noteq> Some obj))
                       | ExistingService T k \<Rightarrow> as ! i = SharedPtr (Existing T k)"
      proof (cases "create ?d")
        case (ServiceFactory T ps)
        with m obtain obj where obj: "apply_convert (convert ?d) (SharedPtr obj) = Inr (as ! i)"
          "dynamic_type obj = T" "fresh_instance ?fs s s' obj"
          "\<forall>j < length descs. j \<noteq> i \<longrightarrow> handle_object (as ! j) \<noteq> Some obj"
          by auto
        from obj(1) conv have "as ! i = SharedPtr obj" by simp
        with obj(2,3,4) ServiceFactory show ?thesis by auto
      next
        case (ExistingService T k)
        with m have "apply_convert (convert ?d) (SharedPtr (Existing T k)) = Inr (as ! i)"
          by simp
        with conv have "as ! i = SharedPtr (Existing T k)" by simp
        with ExistingService show ?thesis by simp
      qed
      with len hist show ?thesis by blast
    qed
    from 1 2 3 show ?thesis by blast
  qed
  have live: "(i = length descs - 1 \<longrightarrow>
                (\<exists>a s'. getService n ?fs p ty s = (Inr a, s') \<and> settled s'))
             \<and> (\<exists>as s'. getServices n ?fs p ty s = (Inr as, s') \<and> settled s')"
    if ac: "acyclic rank rs" and n: "rank ty \<le> n" and st: "settled s"
  proof -
    note rk = acyclic_ranked[OF ac assms(1)]
    from getService_returns[OF rk n snd fit st, of p]
    have "\<exists>a s'. getService n ?fs p ty s = (Inr a, s') \<and> settled s'" by blast
    moreover from getServices_returns[OF rk n snd fit st, of p]
    have "\<exists>as s'. getServices n ?fs p ty s = (Inr as, s') \<and> settled s'" by blast
    ultimately show ?thesis by blast
  qed
  have A: "i = length descs - 1 \<longrightarrow>
           (\<forall>r s'. getService n ?fs p ty s = (r, s') \<longrightarrow>
              (\<exists>rest. calls_between s s' =
                  \<lparr>c_owner = single_lookup_owner descs p, c_key = ty, c_index = i, c_provider = p,
                    c_type = Transient\<rparr> # rest)
              \<and> accounted s s'
              \<and> (cached (calls_between s s') = [] \<longrightarrow> root s' = root s \<and> scopes s' = scopes s)
              \<and> (parameters (create ?d) = [] \<longrightarrow> root s' = root s \<and> scopes s' = scopes s)
              \<and> (\<forall>a. r = Inr a \<longrightarrow>
                    (case create ?d of
                       ServiceFactory T ps \<Rightarrow>
                         (\<exists>obj. a = SharedPtr obj \<and> dynamic_type obj = T
                            \<and> fresh_instance ?fs s s' obj)
                     | ExistingService T k \<Rightarrow> a = SharedPtr (Existing T k))))"
    using single by (intro impI allI)
  have B: "\<forall>r s'. getServices n ?fs p ty s = (r, s') \<longrightarrow>
             accounted s s'
             \<and> (cached (calls_between s s') = [] \<longrightarrow> root s' = root s \<and> scopes s' = scopes s)
             \<and> (\<forall>as. r = Inr as \<longrightarrow>
                   length as = length descs
                   \<and> (\<exists>pre rest. calls_between s s' = pre @
                         \<lparr>c_owner = multi_lookup_owner descs p i, c_key = ty, c_index = i,
                           c_provider = p, c_type = Transient\<rparr> # rest)
                   \<and> (case create ?d of
                         ServiceFactory T ps \<Rightarrow>
                           (\<exists>obj. as ! i = SharedPtr obj \<and> dynamic_type obj = T
                              \<and> fresh_instance ?fs s s' obj
                              \<and> (\<forall>j < length descs. j \<noteq> i \<longrightarrow> handle_object (as ! j) \<noteq> Some obj))
                       | ExistingService T k \<Rightarrow> as ! i = SharedPtr (Existing T k)))"
    using multi by (intro impI allI)
  have C: "acyclic rank rs \<and> rank ty \<le> n \<and> settled s \<longrightarrow>
             (i = length descs - 1 \<longrightarrow>
                (\<exists>a s'. getService n ?fs p ty s = (Inr a, s') \<and> settled s'))
             \<and> (\<exists>as s'. getServices n ?fs p ty s = (Inr as, s') \<and> settled s')"
    using live by (intro impI) (elim conjE)
  show ?thesis by (intro conjI A B C captured_twice)
qed

theorem transient_is_new_and_never_stored_witness:
  "length gst_registrations < 2 ^ 64
   \<and> registered_for (SharedPtrTypeId ''T'') gst_registrations =
       [\<lparr>create = ServiceFactory ''T'' [ByReference ''S''], convert = ToSharedPtr, type = Transient\<rparr>]
   \<and> reachable (collect gst_registrations) two_scopes
   \<and> acyclic gst_rank gst_registrations \<and> gst_rank (SharedPtrTypeId ''T'') \<le> 3
   \<and> settled two_scopes
   \<and> (\<exists>a s'. getService 3 (collect gst_registrations) (Scope 0) (SharedPtrTypeId ''T'') two_scopes
                = (Inr a, s') \<and> settled s')
   \<and> getService 3 (collect gst_registrations) (Scope 0) (SharedPtrTypeId ''T'') two_scopes =
       (Inr (SharedPtr (Object 2 ''T'' [RefArg (Object 1 ''S'' [RefArg (Object 0 ''G'' [])])])),
        gst_after_first)
   \<and> fresh_instance (collect gst_registrations) two_scopes gst_after_first
        (Object 2 ''T'' [RefArg (Object 1 ''S'' [RefArg (Object 0 ''G'' [])])])
   \<and> accounted two_scopes gst_after_first
   \<and> Object 2 ''T'' [RefArg (Object 1 ''S'' [RefArg (Object 0 ''G'' [])])] \<notin> held gst_after_second
   \<and> fst (getService 3 (collect gst_registrations) (Scope 1) (SharedPtrTypeId ''T'') gst_after_first) \<noteq>
       Inr (SharedPtr (Object 2 ''T'' [RefArg (Object 1 ''S'' [RefArg (Object 0 ''G'' [])])]))"
proof -
  let ?fs = "collect gst_registrations"
  let ?T = "SharedPtrTypeId ''T''"
  let ?obj = "Object 2 ''T'' [RefArg (Object 1 ''S'' [RefArg (Object 0 ''G'' [])])]"
  let ?descs = "[\<lparr>create = ServiceFactory ''T'' [ByReference ''S''], convert = ToSharedPtr,
                   type = Transient\<rparr>]"
  have len: "length gst_registrations < 2 ^ 64" by (simp add: gst_registrations_def)
  have descs: "?descs = registered_for ?T gst_registrations"
    by (simp add: registered_for_def gst_registrations_def)
  have i: "0 < length ?descs" by simp
  have tr: "type (?descs ! 0) = Transient" by simp
  have rank: "gst_rank ?T \<le> 3" by (simp add: gst_rank_def)
  note inst = transient_is_new_and_never_stored[OF len descs i tr two_scopes_reachable,
      of 3 "Scope 0" gst_rank]
  have last: "0 = length ?descs - 1" by simp
  note single = mp[OF inst[THEN conjunct1] last, rule_format, OF gst_first]
  note live = mp[OF inst[THEN conjunct2, THEN conjunct2, THEN conjunct1]
      conjI[OF gst_acyclic conjI[OF rank settled_two_scopes]]]
  from mp[OF live[THEN conjunct1] last]
  have returns: "\<exists>a s'. getService 3 ?fs (Scope 0) ?T two_scopes = (Inr a, s') \<and> settled s'" .
  from single have acc: "accounted two_scopes gst_after_first" by simp
  from single have "\<exists>obj. SharedPtr ?obj = SharedPtr obj \<and> dynamic_type obj = ''T''
      \<and> fresh_instance ?fs two_scopes gst_after_first obj" by simp
  then have fresh: "fresh_instance ?fs two_scopes gst_after_first ?obj" by auto
  have ex1: "provider_exists gst_after_first (Scope 1)"
    using getService_evolves[OF gst_first] by (simp add: evolves_def two_scopes_eq)
  have step: "(api_step ?fs)\<^sup>*\<^sup>* gst_after_first gst_after_second"
    using api_step.single[OF ex1 gst_second] by (rule r_into_rtranclp)
  from fresh step have nh: "?obj \<notin> held gst_after_second" unfolding fresh_instance_def by blast
  have "(api_step ?fs)\<^sup>*\<^sup>* gst_after_first gst_after_first" by simp
  with fresh gst_second
  have "handle_object (SharedPtr (Object 4 ''T'' [RefArg (Object 3 ''S'' [RefArg (Object 0 ''G'' [])])]))
      \<noteq> Some ?obj" unfolding fresh_instance_def by blast
  with gst_second have ne: "fst (getService 3 ?fs (Scope 1) ?T gst_after_first) \<noteq> Inr (SharedPtr ?obj)"
    by simp
  show ?thesis
    by (intro conjI len descs[symmetric] two_scopes_reachable gst_acyclic rank settled_two_scopes
        returns gst_first fresh acc nh ne)
qed

text \<open>
  Claim C6, as stated, fails.
  The claim that resolving a transient leaves every table and every initialization order
  unchanged fails when the transient has a cached dependency that is not constructed
  yet: resolving \<open>T\<close> on the first scope constructs the scoped \<open>S\<close> in that scope and
  the singleton \<open>G\<close> in the root.
\<close>

theorem transient_changes_tables:
  "collect gst_registrations (SharedPtrTypeId ''T'') =
     Some [\<lparr>create = ServiceFactory ''T'' [ByReference ''S''], convert = ToSharedPtr, type = Transient\<rparr>]
   \<and> getService 3 (collect gst_registrations) (Scope 0) (SharedPtrTypeId ''T'') two_scopes =
       (Inr (SharedPtr (Object 2 ''T'' [RefArg (Object 1 ''S'' [RefArg (Object 0 ''G'' [])])])),
        gst_after_first)
   \<and> initializationOrder (root two_scopes) = []
   \<and> initializationOrder (root gst_after_first) = [SharedPtr (Object 0 ''G'' [])]
   \<and> instances (root two_scopes) (TypeId ''G'') = None
   \<and> instances (root gst_after_first) (TypeId ''G'') =
       Some [\<lparr>initialized = True, serviceFuture = Some (SharedPtr (Object 0 ''G'' []))\<rparr>]
   \<and> initializationOrder (scopes two_scopes 0) = []
   \<and> initializationOrder (scopes gst_after_first 0) =
       [SharedPtr (Object 1 ''S'' [RefArg (Object 0 ''G'' [])])]
   \<and> root gst_after_first \<noteq> root two_scopes
   \<and> scopes gst_after_first \<noteq> scopes two_scopes"
proof -
  have a: "initializationOrder (root gst_after_first) = [SharedPtr (Object 0 ''G'' [])]"
    "instances (root gst_after_first) (TypeId ''G'') =
       Some [\<lparr>initialized = True, serviceFuture = Some (SharedPtr (Object 0 ''G'' []))\<rparr>]"
    "initializationOrder (scopes gst_after_first 0) =
       [SharedPtr (Object 1 ''S'' [RefArg (Object 0 ''G'' [])])]"
    by (simp_all add: gst_after_first_def two_scopes_eq gst_lookups evaluation provider_numeral)
  have b: "initializationOrder (root two_scopes) = []" "instances (root two_scopes) (TypeId ''G'') = None"
    "initializationOrder (scopes two_scopes 0) = []"
    by (simp_all add: two_scopes_eq empty_members_def)
  from a(1) b(1) have c: "root gst_after_first \<noteq> root two_scopes" by auto
  from a(3) b(3) have d: "scopes gst_after_first \<noteq> scopes two_scopes" by auto
  from a b c d gst_lookups(3) gst_first show ?thesis by simp
qed

subsection \<open>Keys with descriptions of both cached life-times\<close>

lemma scoped_then_singleton_I:
  "collect scoped_then_singleton (TypeId ''I'') =
     Some [\<lparr>create = ServiceFactory ''X'' [], convert = ToReference, type = Scoped\<rparr>,
           \<lparr>create = ServiceFactory ''Y'' [], convert = ToReference, type = Singleton\<rparr>]"
  by (simp add: scoped_then_singleton_def collect_def addSingleton_def addScoped_def addService_def
      emplace_back_description_def)

lemma singleton_then_scoped_I:
  "collect singleton_then_scoped (TypeId ''I'') =
     Some [\<lparr>create = ServiceFactory ''X'' [], convert = ToReference, type = Singleton\<rparr>,
           \<lparr>create = ServiceFactory ''Y'' [], convert = ToReference, type = Scoped\<rparr>]"
  by (simp add: singleton_then_scoped_def collect_def addSingleton_def addScoped_def addService_def
      emplace_back_description_def)

lemmas sts_states = sts_third_def sts_second_def sts_first_def two_scopes_eq scoped_then_singleton_I

lemmas sos_states = sos_second_def sos_first_def two_scopes_eq singleton_then_scoped_I

text \<open>
  Claim C3 fails on the code. With a scoped implementation registered before a singleton
  implementation of the same interface, the single lookup of a scope reads the life-time
  of the first description and resolves the last one: the singleton \<open>Y\<close> is constructed
  once in the table of the first scope, once in the table of the second scope and once in
  the table of the root, three different instances. The multi lookup of the first scope
  decides by the description itself and returns the instance of the root for \<open>Y\<close>.
\<close>

theorem singleton_constructed_in_each_scope:
  "collect scoped_then_singleton (TypeId ''I'') =
     Some [\<lparr>create = ServiceFactory ''X'' [], convert = ToReference, type = Scoped\<rparr>,
           \<lparr>create = ServiceFactory ''Y'' [], convert = ToReference, type = Singleton\<rparr>]
   \<and> getService 1 (collect scoped_then_singleton) (Scope 0) (TypeId ''I'') two_scopes =
       (Inr (ReferenceWrapper (Object 0 ''Y'' [])), sts_first)
   \<and> getService 1 (collect scoped_then_singleton) (Scope 1) (TypeId ''I'') sts_first =
       (Inr (ReferenceWrapper (Object 1 ''Y'' [])), sts_second)
   \<and> getService 1 (collect scoped_then_singleton) Root (TypeId ''I'') sts_second =
       (Inr (ReferenceWrapper (Object 2 ''Y'' [])), sts_third)
   \<and> published sts_third (Scope 0) (TypeId ''I'') 1 (SharedPtr (Object 0 ''Y'' []))
   \<and> published sts_third (Scope 1) (TypeId ''I'') 1 (SharedPtr (Object 1 ''Y'' []))
   \<and> published sts_third Root (TypeId ''I'') 1 (SharedPtr (Object 2 ''Y'' []))
   \<and> constructions sts_third (Scope 0, TypeId ''I'', 1) = 1
   \<and> constructions sts_third (Scope 1, TypeId ''I'', 1) = 1
   \<and> constructions sts_third (Root, TypeId ''I'', 1) = 1
   \<and> fst (getServices 1 (collect scoped_then_singleton) (Scope 0) (TypeId ''I'') sts_third) =
       Inr [ReferenceWrapper (Object 3 ''X'' []), ReferenceWrapper (Object 2 ''Y'' [])]"
proof -
  have a: "getService 1 (collect scoped_then_singleton) (Scope 0) (TypeId ''I'') two_scopes =
       (Inr (ReferenceWrapper (Object 0 ''Y'' [])), sts_first)"
    "getService 1 (collect scoped_then_singleton) (Scope 1) (TypeId ''I'') sts_first =
       (Inr (ReferenceWrapper (Object 1 ''Y'' [])), sts_second)"
    "getService 1 (collect scoped_then_singleton) Root (TypeId ''I'') sts_second =
       (Inr (ReferenceWrapper (Object 2 ''Y'' [])), sts_third)"
    by (simp_all add: sts_states evaluation)
  have b: "published sts_third (Scope 0) (TypeId ''I'') 1 (SharedPtr (Object 0 ''Y'' []))"
    "published sts_third (Scope 1) (TypeId ''I'') 1 (SharedPtr (Object 1 ''Y'' []))"
    "published sts_third Root (TypeId ''I'') 1 (SharedPtr (Object 2 ''Y'' []))"
    by (simp_all add: published_def sts_states evaluation)
  have h: "created sts_third =
     [\<lparr>c_owner = Scope 0, c_key = TypeId ''I'', c_index = 1, c_provider = Scope 0, c_type = Singleton\<rparr>,
      \<lparr>c_owner = Scope 1, c_key = TypeId ''I'', c_index = 1, c_provider = Scope 1, c_type = Singleton\<rparr>,
      \<lparr>c_owner = Root, c_key = TypeId ''I'', c_index = 1, c_provider = Root, c_type = Singleton\<rparr>]"
    by (simp add: sts_states evaluation)
  have c: "constructions sts_third (Scope 0, TypeId ''I'', 1) = 1"
    "constructions sts_third (Scope 1, TypeId ''I'', 1) = 1"
    "constructions sts_third (Root, TypeId ''I'', 1) = 1"
    by (simp_all add: constructions_def h cached_def key_of_def)
  have d: "fst (getServices 1 (collect scoped_then_singleton) (Scope 0) (TypeId ''I'') sts_third) =
       Inr [ReferenceWrapper (Object 3 ''X'' []), ReferenceWrapper (Object 2 ''Y'' [])]"
    by (simp add: sts_states evaluation)
  from scoped_then_singleton_I a b c d show ?thesis by simp
qed

text \<open>
  Claim C8 fails on the code. With a singleton implementation registered before a scoped
  implementation of the same interface, the single lookup of a scope constructs the
  scoped \<open>Y\<close> in the table of the root; the table of the scope stays without the key, and
  the second scope is handed the same instance. The multi lookup of the first scope
  decides by the description itself and constructs a \<open>Y\<close> of its own.
\<close>

theorem scoped_constructed_in_root_through_scope:
  "collect singleton_then_scoped (TypeId ''I'') =
     Some [\<lparr>create = ServiceFactory ''X'' [], convert = ToReference, type = Singleton\<rparr>,
           \<lparr>create = ServiceFactory ''Y'' [], convert = ToReference, type = Scoped\<rparr>]
   \<and> getService 1 (collect singleton_then_scoped) (Scope 0) (TypeId ''I'') two_scopes =
       (Inr (ReferenceWrapper (Object 0 ''Y'' [])), sos_first)
   \<and> published sos_first Root (TypeId ''I'') 1 (SharedPtr (Object 0 ''Y'' []))
   \<and> instances (scopes sos_first 0) (TypeId ''I'') = None
   \<and> initializationOrder (root sos_first) = [SharedPtr (Object 0 ''Y'' [])]
   \<and> initializationOrder (scopes sos_first 0) = []
   \<and> getService 1 (collect singleton_then_scoped) (Scope 1) (TypeId ''I'') sos_first =
       (Inr (ReferenceWrapper (Object 0 ''Y'' [])), sos_second)
   \<and> instances (scopes sos_second 1) (TypeId ''I'') = None
   \<and> fst (getServices 1 (collect singleton_then_scoped) (Scope 0) (TypeId ''I'') sos_second) =
       Inr [ReferenceWrapper (Object 1 ''X'' []), ReferenceWrapper (Object 2 ''Y'' [])]
   \<and> published (snd (getServices 1 (collect singleton_then_scoped) (Scope 0) (TypeId ''I'') sos_second))
       (Scope 0) (TypeId ''I'') 1 (SharedPtr (Object 2 ''Y'' []))"
proof -
  have a: "getService 1 (collect singleton_then_scoped) (Scope 0) (TypeId ''I'') two_scopes =
       (Inr (ReferenceWrapper (Object 0 ''Y'' [])), sos_first)"
    "getService 1 (collect singleton_then_scoped) (Scope 1) (TypeId ''I'') sos_first =
       (Inr (ReferenceWrapper (Object 0 ''Y'' [])), sos_second)"
    by (simp_all add: sos_states evaluation)
  have b: "published sos_first Root (TypeId ''I'') 1 (SharedPtr (Object 0 ''Y'' []))"
    "instances (scopes sos_first 0) (TypeId ''I'') = None"
    "initializationOrder (root sos_first) = [SharedPtr (Object 0 ''Y'' [])]"
    "initializationOrder (scopes sos_first 0) = []"
    "instances (scopes sos_second 1) (TypeId ''I'') = None"
    by (simp_all add: published_def sos_states evaluation)
  have c: "fst (getServices 1 (collect singleton_then_scoped) (Scope 0) (TypeId ''I'') sos_second) =
       Inr [ReferenceWrapper (Object 1 ''X'' []), ReferenceWrapper (Object 2 ''Y'' [])]"
    "published (snd (getServices 1 (collect singleton_then_scoped) (Scope 0) (TypeId ''I'') sos_second))
       (Scope 0) (TypeId ''I'') 1 (SharedPtr (Object 2 ''Y'' []))"
    by (simp_all add: published_def sos_states evaluation)
  from singleton_then_scoped_I a b c show ?thesis by simp
qed

subsection \<open>The chain of four singletons\<close>



subsection \<open>Destruction\<close>

lemma pop_back_all_rev: "pop_back_all xs = rev xs"
proof (induction xs rule: rev_induct)
  case Nil
  show ?case by (subst pop_back_all.simps) simp
next
  case (snoc x xs)
  then show ?case by (subst pop_back_all.simps) simp
qed





subsection \<open>Observing the steps of the earlier implementation\<close>

lemma legacy_members_update [simp]:
  "legacy_members_of (legacy_update_members this f t) q =
     (if q = this then f (legacy_members_of t this) else legacy_members_of t q)"
  by (cases this; cases q) auto

lemma legacy_update_fields [simp]:
  "legacy_next_scope (legacy_update_members this f t) = legacy_next_scope t"
  "legacy_next_address (legacy_update_members this f t) = legacy_next_address t"
  by (cases this; simp)+

lemma legacy_members_next_address [simp]:
  "legacy_members_of (t\<lparr>legacy_next_address := n\<rparr>) q = legacy_members_of t q"
  by (cases q) auto

lemma legacy_emplace_instances_fields [simp]:
  "legacy_next_scope (legacy_emplace_instances this key n t) = legacy_next_scope t"
  "legacy_next_address (legacy_emplace_instances this key n t) = legacy_next_address t"
  "legacy_initializationOrder (legacy_members_of (legacy_emplace_instances this key n t) q) =
     legacy_initializationOrder (legacy_members_of t q)"
  by (auto simp: legacy_emplace_instances_def split: option.splits)

lemma legacy_emplace_instances_table:
  "legacy_instances (legacy_members_of (legacy_emplace_instances this key n t) q) key' =
     (if q = this \<and> key' = key \<and> legacy_instances (legacy_members_of t this) key = None
      then Some (replicate n NoValue)
      else legacy_instances (legacy_members_of t q) key')"
  by (auto simp: legacy_emplace_instances_def split: option.splits)

lemma legacy_emplace_at_fields [simp]:
  "legacy_next_scope (legacy_emplace_at this key i a t) = legacy_next_scope t"
  "legacy_next_address (legacy_emplace_at this key i a t) = legacy_next_address t"
  "legacy_initializationOrder (legacy_members_of (legacy_emplace_at this key i a t) q) =
     legacy_initializationOrder (legacy_members_of t q)"
  by (auto simp: legacy_emplace_at_def split: option.splits)


lemma legacy_emplace_back_order_fields [simp]:
  "legacy_next_scope (legacy_emplace_back_order this a t) = legacy_next_scope t"
  "legacy_next_address (legacy_emplace_back_order this a t) = legacy_next_address t"
  "legacy_instances (legacy_members_of (legacy_emplace_back_order this a t) q) =
     legacy_instances (legacy_members_of t q)"
  "legacy_initializationOrder (legacy_members_of (legacy_emplace_back_order this a t) q) =
     (if q = this then legacy_initializationOrder (legacy_members_of t q) @ [a]
      else legacy_initializationOrder (legacy_members_of t q))"
  by (auto simp: legacy_emplace_back_order_def)


lemma future_at_emplace_instances [simp]:
  "future_at (emplace_instances this key n s) q key' = future_at s q key'"
  by (auto simp: future_at_def slot_at_emplace_instances slot_at_no_table new_slot_def)

lemma legacy_value_at_emplace_instances [simp]:
  "legacy_value_at (legacy_emplace_instances this key n t) q key' = legacy_value_at t q key'"
  by (auto simp: legacy_value_at_def legacy_at_def legacy_emplace_instances_table)

lemma future_at_record_creation [simp]:
  "future_at (record_creation this key i p ty s) q key' = future_at s q key'"
  by (simp add: future_at_def)

lemma future_at_emplace_back_order [simp]:
  "future_at (emplace_back_order this a s) q key' = future_at s q key'"
  by (simp add: future_at_def)

lemma future_at_next_address [simp]:
  "future_at (s\<lparr>next_address := n\<rparr>) q key' = future_at s q key'"
  by (simp add: future_at_def)

lemma legacy_value_at_next_address [simp]:
  "legacy_value_at (t\<lparr>legacy_next_address := n\<rparr>) q key' = legacy_value_at t q key'"
  by (simp add: legacy_value_at_def legacy_at_def)

lemma legacy_value_at_emplace_back_order [simp]:
  "legacy_value_at (legacy_emplace_back_order this a t) q key' = legacy_value_at t q key'"
  by (simp add: legacy_value_at_def legacy_at_def)



subsection \<open>The steps keep the two implementations in agreement\<close>














subsection \<open>The earlier implementation follows every successful resolution\<close>


















subsection \<open>Registries with one description for every key\<close>



subsection \<open>Evaluating the earlier implementation\<close>










end
